theory Spec2Isabelle
  imports Main
begin

section \<open>The promise polyfill of \<^verbatim>\<open>src/Tools/babylon.promise.ts\<close>\<close>

text \<open>
  The TypeScript classes \<^verbatim>\<open>InternalPromise\<close> and \<^verbatim>\<open>FulFillmentAgregator\<close> are objects
  on the JavaScript heap that refer to each other and are mutated in place. The model
  keeps an explicit store: every object has an address, a promise's \<^verbatim>\<open>_children\<close> field
  holds the address of a JavaScript array, and arrays are mutated through that address,
  so the aliasing made by \<^verbatim>\<open>splice\<close> in \<^verbatim>\<open>_moveChildren\<close> and the live iteration of
  \<^verbatim>\<open>for (var child of this._children)\<close> are part of the model.
\<close>

subsection \<open>Values, exceptions and callbacks\<close>

datatype PromiseStates = Pending | Fulfilled | Rejected

text \<open>
  JavaScript values that reach the promise code: \<^verbatim>\<open>undefined\<close>, \<^verbatim>\<open>null\<close>, numbers,
  strings, a reference to a promise object, and a reference to the \<^verbatim>\<open>results\<close> array of
  an aggregator (the only array value the code itself hands out).
\<close>

datatype val = VUndefined | VNull | VNum int | VStr string | VPromise nat | VArray nat

text \<open>A thrown \<^verbatim>\<open>Error\<close> object; the code only reads its \<^verbatim>\<open>message\<close>.\<close>

datatype exn = Error string

text \<open>
  Continuations are JavaScript closures. The ones the model covers:
  \<^item> \<open>FReturn f\<close>: a user continuation that returns \<open>f value\<close> (\<open>null\<close>, a plain value or
    an existing promise);
  \<^item> \<open>FResolve f\<close>: a user continuation that returns \<^verbatim>\<open>InternalPromise.resolve(f(value))\<close>;
  \<^item> \<open>FThrow msg\<close>: a user continuation that throws \<^verbatim>\<open>new Error(msg)\<close>;
  \<^item> \<open>FAggregate g index\<close>: the first closure built by \<^verbatim>\<open>_RegisterForFulfillment\<close> for
    aggregator \<open>g\<close>;
  \<^item> \<open>RRecord\<close>: a user rejection handler that returns normally;
  \<^item> \<open>RThrow msg\<close>: a user rejection handler that throws \<^verbatim>\<open>new Error(msg)\<close>;
  \<^item> \<open>RAggregate g\<close>: the second closure built by \<^verbatim>\<open>_RegisterForFulfillment\<close>.

  Every user callback appends the argument it was called with to the field \<open>calls\<close> of
  the heap, so that an invocation is observable.
\<close>

datatype on_fulfilled =
    FReturn "val \<Rightarrow> val"
  | FResolve "val \<Rightarrow> val"
  | FThrow string
  | FAggregate nat nat

datatype on_rejected = RRecord | RThrow string | RAggregate nat

subsection \<open>Objects and the heap\<close>

record InternalPromise =
  state :: PromiseStates
  result :: val
  reason :: val
  children :: nat
  onFulfilled :: "on_fulfilled option"
  onRejected :: "on_rejected option"
  rejectWasConsumed :: bool

record FulFillmentAgregator =
  count :: nat
  target :: nat
  rootPromise :: nat
  results :: "val list"

record heap =
  promises :: "nat \<Rightarrow> InternalPromise"
  arrays :: "nat \<Rightarrow> nat list"
  agregators :: "nat \<Rightarrow> FulFillmentAgregator"
  fresh :: nat
  calls :: "val list"

definition isFulfilled :: "InternalPromise \<Rightarrow> bool" where
  "isFulfilled p = (state p = Fulfilled)"

definition isRejected :: "InternalPromise \<Rightarrow> bool" where
  "isRejected p = (state p = Rejected)"

definition isPending :: "InternalPromise \<Rightarrow> bool" where
  "isPending p = (state p = Pending)"

text \<open>\<^verbatim>\<open>value()\<close> and \<^verbatim>\<open>reason()\<close>: the thrown error is the left summand.\<close>

definition promise_value :: "InternalPromise \<Rightarrow> exn + val" where
  "promise_value p =
     (if \<not> isFulfilled p then Inl (Error ''Promise is not fulfilled'') else Inr (result p))"

definition promise_reason :: "InternalPromise \<Rightarrow> exn + val" where
  "promise_reason p =
     (if \<not> isRejected p then Inl (Error ''Promise is not rejected'') else Inr (reason p))"

definition upd_promise :: "nat \<Rightarrow> (InternalPromise \<Rightarrow> InternalPromise) \<Rightarrow> heap \<Rightarrow> heap" where
  "upd_promise a f h = h\<lparr>promises := (promises h)(a := f (promises h a))\<rparr>"

text \<open>\<^verbatim>\<open>array.push(x)\<close> on the array at address \<open>arr\<close>.\<close>

definition push :: "nat \<Rightarrow> nat \<Rightarrow> heap \<Rightarrow> heap" where
  "push arr x h = h\<lparr>arrays := (arrays h)(arr := arrays h arr @ [x])\<rparr>"

text \<open>
  \<^verbatim>\<open>xs[i] = v\<close> on a JavaScript array: a write past the end extends the array; the
  holes it leaves read as \<^verbatim>\<open>undefined\<close>.
\<close>

definition array_set :: "val list \<Rightarrow> nat \<Rightarrow> val \<Rightarrow> val list" where
  "array_set xs i v =
     (if i < length xs then xs[i := v]
      else xs @ replicate (i - length xs) VUndefined @ [v])"

text \<open>
  \<^verbatim>\<open>new InternalPromise()\<close> without a resolver: a fresh array for \<^verbatim>\<open>_children\<close> and a
  fresh object with the field initialisers of the class.
\<close>

definition new_InternalPromise :: "heap \<Rightarrow> heap \<times> nat" where
  "new_InternalPromise h =
     (let arr = fresh h; this = Suc (fresh h) in
      (h\<lparr>promises := (promises h)(this :=
            \<lparr>state = Pending, result = VUndefined, reason = VUndefined, children = arr,
             onFulfilled = None, onRejected = None, rejectWasConsumed = False\<rparr>),
          arrays := (arrays h)(arr := []),
          fresh := Suc (Suc (fresh h))\<rparr>, this))"

subsection \<open>Sequencing, exceptions and fuel\<close>

text \<open>
  A call either runs out of fuel (\<open>None\<close>) or ends with the heap it leaves behind and
  either the exception that left it (\<open>Inl\<close>) or the value it returned (\<open>Inr\<close>; a
  \<^verbatim>\<open>void\<close> method returns \<^verbatim>\<open>undefined\<close>).
\<close>

type_synonym outcome = "(heap \<times> (exn + val)) option"

text \<open>\<open>and_then m f\<close>: statement \<open>m\<close>, then \<open>f\<close> with the heap and value it left, unless it threw.\<close>

definition and_then :: "outcome \<Rightarrow> (heap \<Rightarrow> val \<Rightarrow> outcome) \<Rightarrow> outcome" where
  "and_then m f =
     (case m of None \<Rightarrow> None
      | Some (h, Inl e) \<Rightarrow> Some (h, Inl e)
      | Some (h, Inr x) \<Rightarrow> f h x)"

text \<open>\<^verbatim>\<open>try { m } catch (e) { handler }\<close>.\<close>

definition try_catch :: "outcome \<Rightarrow> (heap \<Rightarrow> exn \<Rightarrow> outcome) \<Rightarrow> outcome" where
  "try_catch m handler =
     (case m of None \<Rightarrow> None
      | Some (h, Inl e) \<Rightarrow> handler h e
      | Some (h, Inr x) \<Rightarrow> Some (h, Inr x))"

definition message :: "exn \<Rightarrow> string" where
  "message e = (case e of Error m \<Rightarrow> m)"

subsection \<open>Settlement\<close>

text \<open>
  \<^verbatim>\<open>_resolve\<close>, \<^verbatim>\<open>_reject\<close>, \<^verbatim>\<open>_moveChildren\<close>, their loops, the callbacks and the static
  \<^verbatim>\<open>resolve\<close> call each other, and on a heap whose children form a cycle the JavaScript
  recursion does not end. The methods are therefore the cases of one function \<open>step\<close>
  over the calls below, which takes the meaning \<open>self\<close> of the calls it makes, and
  \<open>exec\<close> ties the knot with fuel.
\<close>

datatype call =
    Resolve nat val
  | Reject nat val
  | MoveChildren nat nat
  | ResolveChildren nat nat val
  | RejectChildren nat nat nat val
  | MoveResolve nat nat nat
  | MoveReject nat nat nat
  | CallOnFulfilled on_fulfilled val
  | CallOnRejected on_rejected val
  | StaticResolve val

fun step :: "(call \<Rightarrow> heap \<Rightarrow> outcome) \<Rightarrow> call \<Rightarrow> heap \<Rightarrow> outcome" where
  "step self (Resolve this v) h =
     try_catch
       (let h1 = upd_promise this (\<lambda>p. p\<lparr>state := Fulfilled, result := v\<rparr>) h in
        and_then (case onFulfilled (promises h1 this) of
                    None \<Rightarrow> Some (h1, Inr VNull)
                  | Some cb \<Rightarrow> self (CallOnFulfilled cb v) h1) (\<lambda>h2 returnedValue.
        and_then (case returnedValue of
                    VPromise returnedPromise \<Rightarrow>
                      self (MoveChildren returnedPromise (children (promises h2 this))) h2
                  | _ \<Rightarrow> Some (h2, Inr VUndefined)) (\<lambda>h3 _.
        and_then (self (ResolveChildren (children (promises h3 this)) 0 v) h3) (\<lambda>h4 _.
        Some (h4, Inr returnedValue)))))
       (\<lambda>h5 e.
          and_then (self (Reject this (VStr (message e))) h5) (\<lambda>h6 _. Some (h6, Inr VNull)))"
| "step self (Reject this r) h =
     (let h1 = upd_promise this (\<lambda>p. p\<lparr>state := Rejected, reason := r\<rparr>) h in
      and_then (case onRejected (promises h1 this) of
                  None \<Rightarrow> Some (h1, Inr VUndefined)
                | Some cb \<Rightarrow>
                    and_then (self (CallOnRejected cb r) h1) (\<lambda>h2 _.
                    Some (upd_promise this (\<lambda>p. p\<lparr>rejectWasConsumed := True\<rparr>) h2,
                          Inr VUndefined))) (\<lambda>h3 _.
      self (RejectChildren this (children (promises h3 this)) 0 r) h3))"
| "step self (MoveChildren this arr) h =
     (let spliced = arrays h arr;
          new = fresh h;
          h1 = upd_promise this (\<lambda>p. p\<lparr>children := new\<rparr>)
                 (h\<lparr>arrays := (arrays h)(arr := [], new := spliced), fresh := Suc new\<rparr>) in
      if isFulfilled (promises h1 this) then self (MoveResolve this new 0) h1
      else if isRejected (promises h1 this) then self (MoveReject this new 0) h1
      else Some (h1, Inr VUndefined))"
| "step self (ResolveChildren arr i v) h =
     (if i < length (arrays h arr) then
        and_then (self (Resolve (arrays h arr ! i) v) h) (\<lambda>h' _.
        self (ResolveChildren arr (Suc i) v) h')
      else Some (h, Inr VUndefined))"
| "step self (RejectChildren this arr i r) h =
     (if i < length (arrays h arr) then
        and_then (if rejectWasConsumed (promises h this)
                  then self (Resolve (arrays h arr ! i) VNull) h
                  else self (Reject (arrays h arr ! i) r) h) (\<lambda>h' _.
        self (RejectChildren this arr (Suc i) r) h')
      else Some (h, Inr VUndefined))"
| "step self (MoveResolve this arr i) h =
     (if i < length (arrays h arr) then
        and_then (self (Resolve (arrays h arr ! i) (result (promises h this))) h) (\<lambda>h' _.
        self (MoveResolve this arr (Suc i)) h')
      else Some (h, Inr VUndefined))"
| "step self (MoveReject this arr i) h =
     (if i < length (arrays h arr) then
        and_then (self (Reject (arrays h arr ! i) (reason (promises h this))) h) (\<lambda>h' _.
        self (MoveReject this arr (Suc i)) h')
      else Some (h, Inr VUndefined))"
| "step self (CallOnFulfilled (FReturn f) v) h = Some (h\<lparr>calls := calls h @ [v]\<rparr>, Inr (f v))"
| "step self (CallOnFulfilled (FResolve f) v) h =
     self (StaticResolve (f v)) (h\<lparr>calls := calls h @ [v]\<rparr>)"
| "step self (CallOnFulfilled (FThrow msg) v) h =
     Some (h\<lparr>calls := calls h @ [v]\<rparr>, Inl (Error msg))"
| "step self (CallOnFulfilled (FAggregate agregator index) v) h =
     (let a = agregators h agregator;
          a' = a\<lparr>results := array_set (results a) index v, count := Suc (count a)\<rparr>;
          h1 = h\<lparr>agregators := (agregators h)(agregator := a')\<rparr> in
      if count a' = target a' then
        and_then (self (Resolve (rootPromise a') (VArray agregator)) h1) (\<lambda>h2 _.
        Some (h2, Inr VNull))
      else Some (h1, Inr VNull))"
| "step self (CallOnRejected RRecord r) h = Some (h\<lparr>calls := calls h @ [r]\<rparr>, Inr VUndefined)"
| "step self (CallOnRejected (RThrow msg) r) h =
     Some (h\<lparr>calls := calls h @ [r]\<rparr>, Inl (Error msg))"
| "step self (CallOnRejected (RAggregate agregator) r) h =
     (let root = rootPromise (agregators h agregator) in
      if \<not> isRejected (promises h root) then
        and_then (self (Reject root r) h) (\<lambda>h' _. Some (h', Inr VUndefined))
      else Some (h, Inr VUndefined))"
| "step self (StaticResolve v) h =
     (case new_InternalPromise h of
        (h1, newPromise) \<Rightarrow>
          and_then (self (Resolve newPromise v) h1) (\<lambda>h2 _. Some (h2, Inr (VPromise newPromise))))"

primrec exec :: "nat \<Rightarrow> call \<Rightarrow> heap \<Rightarrow> outcome" where
  "exec 0 = (\<lambda>c h. None)"
| "exec (Suc n) = step (exec n)"

definition p_resolve :: "nat \<Rightarrow> heap \<Rightarrow> nat \<Rightarrow> val \<Rightarrow> outcome" where
  "p_resolve n h this v = exec n (Resolve this v) h"

definition p_reject :: "nat \<Rightarrow> heap \<Rightarrow> nat \<Rightarrow> val \<Rightarrow> outcome" where
  "p_reject n h this r = exec n (Reject this r) h"

definition static_resolve :: "nat \<Rightarrow> heap \<Rightarrow> val \<Rightarrow> outcome" where
  "static_resolve n h v = exec n (StaticResolve v) h"

subsection \<open>The constructor, \<^verbatim>\<open>then\<close>, \<^verbatim>\<open>catch\<close> and \<^verbatim>\<open>all\<close>\<close>

text \<open>
  The resolver passed to the constructor is a user function that is given the two
  closures \<^verbatim>\<open>resolve\<close> and \<^verbatim>\<open>reject\<close>. It is modelled by what it does with them while
  it runs: a sequence of calls, ended early by a \<^verbatim>\<open>throw\<close>. A resolver that keeps the
  closures for later is the empty sequence, followed later by \<open>p_resolve\<close> or
  \<open>p_reject\<close> on the promise.
\<close>

datatype resolver_call = CallResolve val | CallReject val | Throw string

fun run_resolver :: "nat \<Rightarrow> heap \<Rightarrow> nat \<Rightarrow> resolver_call list \<Rightarrow> outcome" where
  "run_resolver n h this [] = Some (h, Inr VUndefined)"
| "run_resolver n h this (CallResolve v # rest) =
     and_then (p_resolve n h this v) (\<lambda>h' _. run_resolver n h' this rest)"
| "run_resolver n h this (CallReject r # rest) =
     and_then (p_reject n h this r) (\<lambda>h' _. run_resolver n h' this rest)"
| "run_resolver n h this (Throw msg # rest) = Some (h, Inl (Error msg))"

definition promise_new :: "nat \<Rightarrow> heap \<Rightarrow> resolver_call list option \<Rightarrow> outcome" where
  "promise_new n h resolver =
     (case new_InternalPromise h of
        (h1, this) \<Rightarrow>
          (case resolver of
             None \<Rightarrow> Some (h1, Inr (VPromise this))
           | Some body \<Rightarrow>
               and_then
                 (try_catch (run_resolver n h1 this body)
                    (\<lambda>h2 e. p_reject n h2 this (VStr (message e))))
                 (\<lambda>h3 _. Some (h3, Inr (VPromise this)))))"

definition promise_then ::
  "nat \<Rightarrow> heap \<Rightarrow> nat \<Rightarrow> on_fulfilled option \<Rightarrow> on_rejected option \<Rightarrow> outcome" where
  "promise_then n h this onF onR =
     (case new_InternalPromise h of
        (h1, newPromise) \<Rightarrow>
          (let h2 = upd_promise newPromise (\<lambda>p. p\<lparr>onFulfilled := onF, onRejected := onR\<rparr>) h1;
               h3 = push (children (promises h2 this)) newPromise h2;
               t = promises h3 this in
           if state t \<noteq> Pending then
             if state t = Fulfilled \<or> rejectWasConsumed t then
               and_then (p_resolve n h3 newPromise (result t)) (\<lambda>h4 returnedValue.
                 case returnedValue of
                   VUndefined \<Rightarrow> Some (h4, Inr (VPromise newPromise))
                 | VNull \<Rightarrow> Some (h4, Inr (VPromise newPromise))
                 | VPromise returnedPromise \<Rightarrow>
                     Some (push (children (promises h4 newPromise)) returnedPromise h4,
                           Inr (VPromise returnedPromise))
                 | _ \<Rightarrow>
                     Some (upd_promise newPromise (\<lambda>p. p\<lparr>result := returnedValue\<rparr>) h4,
                           Inr (VPromise newPromise)))
             else
               and_then (p_reject n h3 newPromise (reason t)) (\<lambda>h4 _.
                 Some (h4, Inr (VPromise newPromise)))
           else Some (h3, Inr (VPromise newPromise))))"

definition promise_catch :: "nat \<Rightarrow> heap \<Rightarrow> nat \<Rightarrow> on_rejected \<Rightarrow> outcome" where
  "promise_catch n h this onR = promise_then n h this None (Some onR)"

definition RegisterForFulfillment :: "nat \<Rightarrow> heap \<Rightarrow> nat \<Rightarrow> nat \<Rightarrow> nat \<Rightarrow> outcome" where
  "RegisterForFulfillment n h promise agregator index =
     and_then (promise_then n h promise (Some (FAggregate agregator index))
                 (Some (RAggregate agregator)))
       (\<lambda>h' _. Some (h', Inr VUndefined))"

text \<open>The loop of \<^verbatim>\<open>all\<close> over the input array, from \<open>index\<close> on.\<close>

fun all_loop :: "nat \<Rightarrow> heap \<Rightarrow> nat list \<Rightarrow> nat \<Rightarrow> nat \<Rightarrow> outcome" where
  "all_loop n h [] agregator index = Some (h, Inr VUndefined)"
| "all_loop n h (promise # rest) agregator index =
     and_then (RegisterForFulfillment n h promise agregator index) (\<lambda>h' _.
     all_loop n h' rest agregator (Suc index))"

text \<open>
  \<^verbatim>\<open>new FulFillmentAgregator()\<close> followed by the two assignments to \<^verbatim>\<open>target\<close> and
  \<^verbatim>\<open>rootPromise\<close> of \<^verbatim>\<open>all\<close>.
\<close>

definition new_FulFillmentAgregator :: "heap \<Rightarrow> nat \<Rightarrow> nat \<Rightarrow> heap \<times> nat" where
  "new_FulFillmentAgregator h tgt root =
     (let agregator = fresh h in
      (h\<lparr>agregators := (agregators h)(agregator :=
            \<lparr>count = 0, target = tgt, rootPromise = root, results = []\<rparr>),
          fresh := Suc (fresh h)\<rparr>, agregator))"

definition static_all :: "nat \<Rightarrow> heap \<Rightarrow> nat list \<Rightarrow> outcome" where
  "static_all n h ps =
     (case new_InternalPromise h of
        (h1, newPromise) \<Rightarrow>
          (case new_FulFillmentAgregator h1 (length ps) newPromise of
             (h2, agregator) \<Rightarrow>
               and_then (all_loop n h2 ps agregator 0) (\<lambda>h3 _.
               Some (h3, Inr (VPromise newPromise)))))"

text \<open>Reading a value: an array reference is read through the heap.\<close>

datatype jsvalue = JUndefined | JNull | JNum int | JStr string | JPromise nat | JArray "val list"

definition read_val :: "heap \<Rightarrow> val \<Rightarrow> jsvalue" where
  "read_val h v =
     (case v of VUndefined \<Rightarrow> JUndefined | VNull \<Rightarrow> JNull | VNum i \<Rightarrow> JNum i
      | VStr s \<Rightarrow> JStr s | VPromise a \<Rightarrow> JPromise a
      | VArray g \<Rightarrow> JArray (results (agregators h g)))"

definition empty_heap :: heap where
  "empty_heap =
     \<lparr>promises = (\<lambda>_. \<lparr>state = Pending, result = VUndefined, reason = VUndefined, children = 0,
                       onFulfilled = None, onRejected = None, rejectWasConsumed = False\<rparr>),
      arrays = (\<lambda>_. []),
      agregators = (\<lambda>_. \<lparr>count = 0, target = 0, rootPromise = 0, results = []\<rparr>),
      fresh = 0, calls = []\<rparr>"

text \<open>
  Glue for the scenarios below: the heap and the promise of a call that returned a
  promise, and the heap of a call that returned.
\<close>

definition returned_promise :: "outcome \<Rightarrow> (heap \<times> nat) option" where
  "returned_promise m =
     (case m of Some (h, Inr (VPromise a)) \<Rightarrow> Some (h, a) | _ \<Rightarrow> None)"

definition returned :: "outcome \<Rightarrow> heap option" where
  "returned m = (case m of Some (h, Inr _) \<Rightarrow> Some h | _ \<Rightarrow> None)"

subsection \<open>Vocabulary of the statements\<close>

text \<open>The two assignments that open \<^verbatim>\<open>_resolve\<close> and \<^verbatim>\<open>_reject\<close>.\<close>

definition fulfil :: "val \<Rightarrow> InternalPromise \<Rightarrow> InternalPromise" where
  "fulfil v p = p\<lparr>state := Fulfilled, result := v\<rparr>"

definition refuse :: "val \<Rightarrow> InternalPromise \<Rightarrow> InternalPromise" where
  "refuse r p = p\<lparr>state := Rejected, reason := r\<rparr>"

text \<open>
  A plain node: no continuation, no rejection handler and no child. This is what
  \<^verbatim>\<open>new InternalPromise()\<close> and \<^verbatim>\<open>then()\<close> without arguments create.
\<close>

definition leaf :: "heap \<Rightarrow> nat \<Rightarrow> bool" where
  "leaf h c \<longleftrightarrow> onFulfilled (promises h c) = None \<and> onRejected (promises h c) = None \<and>
     arrays h (children (promises h c)) = []"

text \<open>A node and its array of children lie below the allocation pointer.\<close>

definition allocated :: "heap \<Rightarrow> nat \<Rightarrow> bool" where
  "allocated h a \<longleftrightarrow> a < fresh h \<and> children (promises h a) < fresh h"

text \<open>The heap in which \<open>f\<close> was applied to the nodes of \<open>S\<close>.\<close>

definition settle_nodes :: "nat set \<Rightarrow> (InternalPromise \<Rightarrow> InternalPromise) \<Rightarrow> heap \<Rightarrow> heap" where
  "settle_nodes S f h = h\<lparr>promises := (\<lambda>a. if a \<in> S then f (promises h a) else promises h a)\<rparr>"

text \<open>Observations of the heap a run leaves.\<close>

definition state_after :: "(heap \<times> 'a) option \<Rightarrow> nat \<Rightarrow> PromiseStates option" where
  "state_after m a = (case m of None \<Rightarrow> None | Some (h, _) \<Rightarrow> Some (state (promises h a)))"

definition result_after :: "(heap \<times> 'a) option \<Rightarrow> nat \<Rightarrow> jsvalue option" where
  "result_after m a =
     (case m of None \<Rightarrow> None | Some (h, _) \<Rightarrow> Some (read_val h (result (promises h a))))"

definition reason_after :: "(heap \<times> 'a) option \<Rightarrow> nat \<Rightarrow> jsvalue option" where
  "reason_after m a =
     (case m of None \<Rightarrow> None | Some (h, _) \<Rightarrow> Some (read_val h (reason (promises h a))))"

text \<open>The user function \<^verbatim>\<open>() => x\<close>.\<close>

definition always :: "val \<Rightarrow> val \<Rightarrow> val" where
  "always x y = x"

subsection \<open>Scenarios\<close>

text \<open>
  A parent (node 1, children array 0) with two plain children (nodes 3 and 5) and the
  given handlers.
\<close>

definition fan_heap :: "on_fulfilled option \<Rightarrow> on_rejected option \<Rightarrow> heap" where
  "fan_heap onF onR =
     push 0 5 (push 0 3 (upd_promise 1 (\<lambda>p. p\<lparr>onFulfilled := onF, onRejected := onR\<rparr>)
       (fst (new_InternalPromise (fst (new_InternalPromise (fst (new_InternalPromise
          empty_heap))))))))"

text \<open>
  The same parent, whose continuation returns the promise \<open>r\<close> (node 7, with the children
  array 6) that exists beside it, in the given state.
\<close>

definition fan_heap_beside :: "PromiseStates \<Rightarrow> heap" where
  "fan_heap_beside st =
     upd_promise 7 (\<lambda>p. p\<lparr>state := st, result := VNum 42, reason := VStr ''no''\<rparr>)
       (fst (new_InternalPromise (fan_heap (Some (FReturn (always (VPromise 7)))) None)))"

text \<open>
  \<^verbatim>\<open>A = new Promise(..); B = A.catch(h); C = B.then(); D = A.then();\<close> and then the stored
  \<^verbatim>\<open>reject(R)\<close> of \<open>A\<close> is called.
\<close>

definition rejection_chain ::
  "nat \<Rightarrow> heap \<Rightarrow> val \<Rightarrow> (heap \<times> nat \<times> nat \<times> nat \<times> nat) option" where
  "rejection_chain n h0 R =
     (case returned_promise (promise_new n h0 None) of None \<Rightarrow> None | Some (h1, A) \<Rightarrow>
     (case returned_promise (promise_catch n h1 A RRecord) of None \<Rightarrow> None | Some (h2, B) \<Rightarrow>
     (case returned_promise (promise_then n h2 B None None) of None \<Rightarrow> None | Some (h3, C) \<Rightarrow>
     (case returned_promise (promise_then n h3 A None None) of None \<Rightarrow> None | Some (h4, D) \<Rightarrow>
     (case returned (p_reject n h4 A R) of None \<Rightarrow> None | Some h5 \<Rightarrow>
        Some (h5, A, B, C, D))))))"

text \<open>The same chain built on an \<open>A\<close> whose resolver has already called \<^verbatim>\<open>reject(R)\<close>.\<close>

definition rejection_chain_late ::
  "nat \<Rightarrow> heap \<Rightarrow> val \<Rightarrow> (heap \<times> nat \<times> nat \<times> nat \<times> nat) option" where
  "rejection_chain_late n h0 R =
     (case returned_promise (promise_new n h0 (Some [CallReject R])) of None \<Rightarrow> None
      | Some (h1, A) \<Rightarrow>
     (case returned_promise (promise_catch n h1 A RRecord) of None \<Rightarrow> None | Some (h2, B) \<Rightarrow>
     (case returned_promise (promise_then n h2 B None None) of None \<Rightarrow> None | Some (h3, C) \<Rightarrow>
     (case returned_promise (promise_then n h3 A None None) of None \<Rightarrow> None | Some (h4, D) \<Rightarrow>
        Some (h4, A, B, C, D)))))"

text \<open>
  \<^verbatim>\<open>P = new Promise(..); Q = P.then(x => InternalPromise.resolve(f(x))); C = Q.then();\<close>
  and then the stored \<^verbatim>\<open>resolve(v)\<close> of \<open>P\<close> is called.
\<close>

definition chained_return ::
  "nat \<Rightarrow> heap \<Rightarrow> (val \<Rightarrow> val) \<Rightarrow> val \<Rightarrow> (heap \<times> nat \<times> nat \<times> nat) option" where
  "chained_return n h0 f v =
     (case returned_promise (promise_new n h0 None) of None \<Rightarrow> None | Some (h1, P) \<Rightarrow>
     (case returned_promise (promise_then n h1 P (Some (FResolve f)) None) of None \<Rightarrow> None
      | Some (h2, Q) \<Rightarrow>
     (case returned_promise (promise_then n h2 Q None None) of None \<Rightarrow> None | Some (h3, C) \<Rightarrow>
     (case returned (p_resolve n h3 P v) of None \<Rightarrow> None | Some h4 \<Rightarrow>
        Some (h4, P, Q, C)))))"

text \<open>
  \<^verbatim>\<open>P = InternalPromise.resolve(v); R = P.then(x => InternalPromise.resolve(f(x)));\<close>
\<close>

definition chained_return_settled ::
  "nat \<Rightarrow> heap \<Rightarrow> (val \<Rightarrow> val) \<Rightarrow> val \<Rightarrow> (heap \<times> nat \<times> nat) option" where
  "chained_return_settled n h0 f v =
     (case returned_promise (static_resolve n h0 v) of None \<Rightarrow> None | Some (h1, P) \<Rightarrow>
     (case returned_promise (promise_then n h1 P (Some (FResolve f)) None) of None \<Rightarrow> None
      | Some (h2, R) \<Rightarrow> Some (h2, P, R)))"

subsection \<open>Settling the inputs of \<^verbatim>\<open>all\<close>\<close>















section \<open>Basic facts\<close>

declare exec.simps [simp del]

lemma exec_0 [simp]: "exec 0 c h = None"
  by (simp add: exec.simps)

lemma exec_Suc: "exec (Suc n) c h = step (exec n) c h"
  by (simp add: exec.simps)

lemmas run_defs = p_resolve_def p_reject_def static_resolve_def and_then_def try_catch_def
  upd_promise_def push_def new_InternalPromise_def isFulfilled_def isRejected_def isPending_def
  message_def Let_def

lemmas api_defs = promise_new_def promise_then_def promise_catch_def returned_promise_def
  returned_def

lemmas obs_defs = state_after_def result_after_def reason_after_def read_val_def




subsection \<open>Plain nodes\<close>

lemma resolve_leaf:
  "leaf h c \<Longrightarrow> exec (Suc (Suc n)) (Resolve c v) h = Some (upd_promise c (fulfil v) h, Inr VNull)"
  by (simp add: leaf_def fulfil_def exec_Suc run_defs)

lemma reject_leaf:
  "leaf h c \<Longrightarrow>
     exec (Suc (Suc n)) (Reject c r) h = Some (upd_promise c (refuse r) h, Inr VUndefined)"
  by (simp add: leaf_def refuse_def exec_Suc run_defs)

lemma leaf_upd_fulfil [simp]: "leaf (upd_promise c (fulfil v) h) a = leaf h a"
  by (simp add: leaf_def upd_promise_def fulfil_def)

lemma leaf_upd_refuse [simp]: "leaf (upd_promise c (refuse v) h) a = leaf h a"
  by (simp add: leaf_def upd_promise_def refuse_def)

lemma arrays_upd_promise [simp]: "arrays (upd_promise c f h) = arrays h"
  by (simp add: upd_promise_def)

lemma flag_upd_fulfil [simp]:
  "rejectWasConsumed (promises (upd_promise c (fulfil v) h) a) = rejectWasConsumed (promises h a)"
  by (simp add: upd_promise_def fulfil_def)

lemma flag_upd_refuse [simp]:
  "rejectWasConsumed (promises (upd_promise c (refuse v) h) a) = rejectWasConsumed (promises h a)"
  by (simp add: upd_promise_def refuse_def)

lemma fields_upd_fulfil [simp]:
  "children (promises (upd_promise c (fulfil v) h) a) = children (promises h a)"
  "onFulfilled (promises (upd_promise c (fulfil v) h) a) = onFulfilled (promises h a)"
  "onRejected (promises (upd_promise c (fulfil v) h) a) = onRejected (promises h a)"
  "reason (promises (upd_promise c (fulfil v) h) a) = reason (promises h a)"
  by (simp_all add: upd_promise_def fulfil_def)

lemma fields_upd_refuse [simp]:
  "children (promises (upd_promise c (refuse v) h) a) = children (promises h a)"
  "onFulfilled (promises (upd_promise c (refuse v) h) a) = onFulfilled (promises h a)"
  "onRejected (promises (upd_promise c (refuse v) h) a) = onRejected (promises h a)"
  "result (promises (upd_promise c (refuse v) h) a) = result (promises h a)"
  by (simp_all add: upd_promise_def refuse_def)

lemma result_upd_fulfil_same [simp]:
  "result (promises (upd_promise c (fulfil (result (promises h this))) h) this) =
     result (promises h this)"
  by (simp add: upd_promise_def fulfil_def)

lemma settle_nodes_step:
  assumes "\<And>p. f (f p) = f p"
  shows "settle_nodes S f (upd_promise c f h) = settle_nodes (insert c S) f h"
  by (cases h) (auto simp: settle_nodes_def upd_promise_def fun_eq_iff assms)

lemma settle_nodes_empty [simp]: "settle_nodes {} f h = h"
  by (simp add: settle_nodes_def)

lemma promises_settle_nodes [simp]:
  "promises (settle_nodes S f h) a = (if a \<in> S then f (promises h a) else promises h a)"
  "arrays (settle_nodes S f h) = arrays h"
  "agregators (settle_nodes S f h) = agregators h"
  "fresh (settle_nodes S f h) = fresh h"
  "calls (settle_nodes S f h) = calls h"
  by (simp_all add: settle_nodes_def)

subsection \<open>The loops over plain children\<close>

lemma resolve_children_leaves:
  assumes "\<forall>c \<in> set (drop i (arrays h arr)). leaf h c"
  shows "exec (Suc (Suc (length (arrays h arr) - i + n))) (ResolveChildren arr i v) h =
           Some (settle_nodes (set (drop i (arrays h arr))) (fulfil v) h, Inr VUndefined)"
  using assms
proof (induction "length (arrays h arr) - i" arbitrary: h i)
  case 0
  then show ?case by (simp add: exec_Suc)
next
  case (Suc k)
  let ?cs = "arrays h arr"
  let ?c = "?cs ! i"
  let ?h' = "upd_promise ?c (fulfil v) h"
  from Suc.hyps(2) have i: "i < length ?cs" by simp
  then have dr: "drop i ?cs = ?c # drop (Suc i) ?cs"
    by (simp add: Cons_nth_drop_Suc)
  with Suc.prems have lc: "leaf h ?c" and rest: "\<forall>c \<in> set (drop (Suc i) ?cs). leaf h c"
    by simp_all
  have len: "length ?cs - i = Suc k" using Suc.hyps(2) by simp
  have k: "k = length (arrays ?h' arr) - Suc i" using Suc.hyps(2) by simp
  have IH: "exec (Suc (Suc (k + n))) (ResolveChildren arr (Suc i) v) ?h' =
              Some (settle_nodes (set (drop (Suc i) ?cs)) (fulfil v) ?h', Inr VUndefined)"
    using Suc.hyps(1) [OF k] rest k by simp
  have "exec (Suc (Suc (Suc k + n))) (ResolveChildren arr i v) h =
          and_then (exec (Suc (Suc (k + n))) (Resolve ?c v) h)
            (\<lambda>h' _. exec (Suc (Suc (k + n))) (ResolveChildren arr (Suc i) v) h')"
    using i by (simp add: exec_Suc [of "Suc (Suc (k + n))"])
  also have "\<dots> = Some (settle_nodes (set (drop (Suc i) ?cs)) (fulfil v) ?h', Inr VUndefined)"
    by (simp only: resolve_leaf [OF lc] IH and_then_def option.case prod.case sum.case)
  also have "settle_nodes (set (drop (Suc i) ?cs)) (fulfil v) ?h' =
               settle_nodes (set (drop i ?cs)) (fulfil v) h"
    by (simp add: settle_nodes_step fulfil_def dr)
  finally show ?case by (simp only: len)
qed


lemma reject_children_leaves:
  assumes "\<forall>c \<in> set (drop i (arrays h arr)). leaf h c"
  shows "exec (Suc (Suc (length (arrays h arr) - i + n))) (RejectChildren this arr i r) h =
           Some (settle_nodes (set (drop i (arrays h arr)))
                   (if rejectWasConsumed (promises h this) then fulfil VNull else refuse r) h,
                 Inr VUndefined)"
  using assms
proof (induction "length (arrays h arr) - i" arbitrary: h i)
  case 0
  then show ?case by (simp add: exec_Suc)
next
  case (Suc k)
  let ?cs = "arrays h arr"
  let ?c = "?cs ! i"
  let ?f = "if rejectWasConsumed (promises h this) then fulfil VNull else refuse r"
  let ?h' = "upd_promise ?c ?f h"
  from Suc.hyps(2) have i: "i < length ?cs" by simp
  then have dr: "drop i ?cs = ?c # drop (Suc i) ?cs"
    by (simp add: Cons_nth_drop_Suc)
  with Suc.prems have lc: "leaf h ?c" and rest: "\<forall>c \<in> set (drop (Suc i) ?cs). leaf h c"
    by simp_all
  have len: "length ?cs - i = Suc k" using Suc.hyps(2) by simp
  have k: "k = length (arrays ?h' arr) - Suc i" using Suc.hyps(2) by simp
  have IH: "exec (Suc (Suc (k + n))) (RejectChildren this arr (Suc i) r) ?h' =
              Some (settle_nodes (set (drop (Suc i) ?cs)) ?f ?h', Inr VUndefined)"
    using Suc.hyps(1) [OF k] rest k by simp
  have "exec (Suc (Suc (Suc k + n))) (RejectChildren this arr i r) h =
          and_then (if rejectWasConsumed (promises h this)
                    then exec (Suc (Suc (k + n))) (Resolve ?c VNull) h
                    else exec (Suc (Suc (k + n))) (Reject ?c r) h)
            (\<lambda>h' _. exec (Suc (Suc (k + n))) (RejectChildren this arr (Suc i) r) h')"
    using i by (simp add: exec_Suc [of "Suc (Suc (k + n))"])
  also have "\<dots> = Some (settle_nodes (set (drop (Suc i) ?cs)) ?f ?h', Inr VUndefined)"
    using IH by (cases "rejectWasConsumed (promises h this)")
      (simp_all add: resolve_leaf [OF lc] reject_leaf [OF lc] and_then_def)
  also have "settle_nodes (set (drop (Suc i) ?cs)) ?f ?h' = settle_nodes (set (drop i ?cs)) ?f h"
    by (simp add: settle_nodes_step fulfil_def refuse_def dr)
  finally show ?case by (simp only: len)
qed

lemma move_resolve_leaves:
  assumes "\<forall>c \<in> set (drop i (arrays h arr)). leaf h c"
  shows "exec (Suc (Suc (length (arrays h arr) - i + n))) (MoveResolve this arr i) h =
           Some (settle_nodes (set (drop i (arrays h arr))) (fulfil (result (promises h this))) h,
                 Inr VUndefined)"
  using assms
proof (induction "length (arrays h arr) - i" arbitrary: h i)
  case 0
  then show ?case by (simp add: exec_Suc)
next
  case (Suc k)
  let ?cs = "arrays h arr"
  let ?c = "?cs ! i"
  let ?w = "result (promises h this)"
  let ?h' = "upd_promise ?c (fulfil ?w) h"
  from Suc.hyps(2) have i: "i < length ?cs" by simp
  then have dr: "drop i ?cs = ?c # drop (Suc i) ?cs"
    by (simp add: Cons_nth_drop_Suc)
  with Suc.prems have lc: "leaf h ?c" and rest: "\<forall>c \<in> set (drop (Suc i) ?cs). leaf h c"
    by simp_all
  have len: "length ?cs - i = Suc k" using Suc.hyps(2) by simp
  have k: "k = length (arrays ?h' arr) - Suc i" using Suc.hyps(2) by simp
  have IH: "exec (Suc (Suc (k + n))) (MoveResolve this arr (Suc i)) ?h' =
              Some (settle_nodes (set (drop (Suc i) ?cs)) (fulfil ?w) ?h', Inr VUndefined)"
    using Suc.hyps(1) [OF k] rest k by simp
  have "exec (Suc (Suc (Suc k + n))) (MoveResolve this arr i) h =
          and_then (exec (Suc (Suc (k + n))) (Resolve ?c ?w) h)
            (\<lambda>h' _. exec (Suc (Suc (k + n))) (MoveResolve this arr (Suc i)) h')"
    using i by (simp add: exec_Suc [of "Suc (Suc (k + n))"])
  also have "\<dots> = Some (settle_nodes (set (drop (Suc i) ?cs)) (fulfil ?w) ?h', Inr VUndefined)"
    using IH by (simp add: resolve_leaf [OF lc] and_then_def)
  also have "settle_nodes (set (drop (Suc i) ?cs)) (fulfil ?w) ?h' =
               settle_nodes (set (drop i ?cs)) (fulfil ?w) h"
    by (simp add: settle_nodes_step fulfil_def dr)
  finally show ?case by (simp only: len)
qed

lemma move_reject_leaves:
  assumes "\<forall>c \<in> set (drop i (arrays h arr)). leaf h c"
  shows "exec (Suc (Suc (length (arrays h arr) - i + n))) (MoveReject this arr i) h =
           Some (settle_nodes (set (drop i (arrays h arr))) (refuse (reason (promises h this))) h,
                 Inr VUndefined)"
  using assms
proof (induction "length (arrays h arr) - i" arbitrary: h i)
  case 0
  then show ?case by (simp add: exec_Suc)
next
  case (Suc k)
  let ?cs = "arrays h arr"
  let ?c = "?cs ! i"
  let ?w = "reason (promises h this)"
  let ?h' = "upd_promise ?c (refuse ?w) h"
  from Suc.hyps(2) have i: "i < length ?cs" by simp
  then have dr: "drop i ?cs = ?c # drop (Suc i) ?cs"
    by (simp add: Cons_nth_drop_Suc)
  with Suc.prems have lc: "leaf h ?c" and rest: "\<forall>c \<in> set (drop (Suc i) ?cs). leaf h c"
    by simp_all
  have len: "length ?cs - i = Suc k" using Suc.hyps(2) by simp
  have k: "k = length (arrays ?h' arr) - Suc i" using Suc.hyps(2) by simp
  have w: "reason (promises ?h' this) = ?w"
    by (simp add: upd_promise_def refuse_def)
  have IH: "exec (Suc (Suc (k + n))) (MoveReject this arr (Suc i)) ?h' =
              Some (settle_nodes (set (drop (Suc i) ?cs)) (refuse ?w) ?h', Inr VUndefined)"
    using Suc.hyps(1) [OF k] rest k unfolding w by simp
  have "exec (Suc (Suc (Suc k + n))) (MoveReject this arr i) h =
          and_then (exec (Suc (Suc (k + n))) (Reject ?c ?w) h)
            (\<lambda>h' _. exec (Suc (Suc (k + n))) (MoveReject this arr (Suc i)) h')"
    using i by (simp add: exec_Suc [of "Suc (Suc (k + n))"])
  also have "\<dots> = Some (settle_nodes (set (drop (Suc i) ?cs)) (refuse ?w) ?h', Inr VUndefined)"
    using IH by (simp add: reject_leaf [OF lc] and_then_def)
  also have "settle_nodes (set (drop (Suc i) ?cs)) (refuse ?w) ?h' =
               settle_nodes (set (drop i ?cs)) (refuse ?w) h"
    by (simp add: settle_nodes_step refuse_def dr)
  finally show ?case by (simp only: len)
qed


subsection \<open>Settling a node whose children are plain\<close>

lemma reject_consumed_over_leaves:
  assumes "\<forall>c \<in> set (arrays h (children (promises h this))). leaf h c"
    and "onRejected (promises h this) = Some RRecord"
  shows "p_reject (Suc (Suc (Suc (length (arrays h (children (promises h this))) + n)))) h this R =
           Some (settle_nodes (set (arrays h (children (promises h this)))) (fulfil VNull)
                   (upd_promise this (\<lambda>p. p\<lparr>rejectWasConsumed := True\<rparr>)
                      (upd_promise this (refuse R) h\<lparr>calls := calls h @ [R]\<rparr>)),
                 Inr VUndefined)"
proof -
  let ?h3 = "upd_promise this (\<lambda>p. p\<lparr>rejectWasConsumed := True\<rparr>)
               (upd_promise this (refuse R) h\<lparr>calls := calls h @ [R]\<rparr>)"
  have a: "arrays ?h3 = arrays h" by (simp add: upd_promise_def)
  have c: "children (promises ?h3 this) = children (promises h this)"
    by (simp add: upd_promise_def refuse_def)
  have l: "\<forall>c \<in> set (drop 0 (arrays ?h3 (children (promises h this)))). leaf ?h3 c"
    using assms(1) by (simp add: leaf_def upd_promise_def refuse_def)
  have f: "rejectWasConsumed (promises ?h3 this)" by (simp add: upd_promise_def)
  have "p_reject (Suc (Suc (Suc (length (arrays h (children (promises h this))) + n)))) h this R =
          exec (Suc (Suc (length (arrays h (children (promises h this))) + n)))
            (RejectChildren this (children (promises h this)) 0 R) ?h3"
    using assms(2)
    by (simp add: refuse_def exec_Suc [of "Suc (Suc (length (arrays h (children (promises h this))) + n))"]
          exec_Suc [of "Suc (length (arrays h (children (promises h this))) + n)" "CallOnRejected RRecord R"] run_defs)
  also have "\<dots> = Some (settle_nodes (set (arrays h (children (promises h this)))) (fulfil VNull) ?h3,
                        Inr VUndefined)"
    using reject_children_leaves [OF l, of n this R] f by (simp add: a)
  finally show ?thesis .
qed


lemma reject_unhandled_over_leaves:
  assumes "\<forall>c \<in> set (arrays h (children (promises h this))). leaf h c"
    and "onRejected (promises h this) = None"
    and "\<not> rejectWasConsumed (promises h this)"
  shows "p_reject (Suc (Suc (Suc (length (arrays h (children (promises h this))) + n)))) h this R =
           Some (settle_nodes (set (arrays h (children (promises h this)))) (refuse R)
                   (upd_promise this (refuse R) h),
                 Inr VUndefined)"
proof -
  let ?h3 = "upd_promise this (refuse R) h"
  have a: "arrays ?h3 = arrays h" by (simp add: upd_promise_def)
  have l: "\<forall>c \<in> set (drop 0 (arrays ?h3 (children (promises h this)))). leaf ?h3 c"
    using assms(1) by (simp add: leaf_def upd_promise_def refuse_def)
  have f: "\<not> rejectWasConsumed (promises ?h3 this)"
    using assms(3) by (simp add: upd_promise_def refuse_def)
  have "p_reject (Suc (Suc (Suc (length (arrays h (children (promises h this))) + n)))) h this R =
          exec (Suc (Suc (length (arrays h (children (promises h this))) + n)))
            (RejectChildren this (children (promises h this)) 0 R) ?h3"
    using assms(2)
    by (simp add: refuse_def exec_Suc [of "Suc (Suc (length (arrays h (children (promises h this))) + n))"]
          run_defs)
  also have "\<dots> = Some (settle_nodes (set (arrays h (children (promises h this)))) (refuse R) ?h3,
                        Inr VUndefined)"
    using reject_children_leaves [OF l, of n this R] f by (simp add: a)
  finally show ?thesis .
qed

lemma resolve_over_leaves:
  assumes "\<forall>c \<in> set (arrays h (children (promises h this))). leaf h c"
    and "onFulfilled (promises h this) = None"
  shows "p_resolve (Suc (Suc (Suc (length (arrays h (children (promises h this))) + n)))) h this v =
           Some (settle_nodes (set (arrays h (children (promises h this)))) (fulfil v)
                   (upd_promise this (fulfil v) h),
                 Inr VNull)"
proof -
  let ?h3 = "upd_promise this (fulfil v) h"
  let ?m = "Suc (Suc (length (arrays h (children (promises h this))) + n))"
  have a: "arrays ?h3 = arrays h" by (simp add: upd_promise_def)
  have l: "\<forall>c \<in> set (drop 0 (arrays ?h3 (children (promises h this)))). leaf ?h3 c"
    using assms(1) by (simp add: leaf_def upd_promise_def fulfil_def)
  have "p_resolve (Suc ?m) h this v =
          try_catch (and_then (exec ?m (ResolveChildren (children (promises h this)) 0 v) ?h3)
                       (\<lambda>h4 _. Some (h4, Inr VNull)))
            (\<lambda>h5 e. and_then (exec ?m (Reject this (VStr (message e))) h5)
                        (\<lambda>h6 _. Some (h6, Inr VNull)))"
    using assms(2)
    by (simp add: p_resolve_def exec_Suc [of ?m] fulfil_def upd_promise_def and_then_def Let_def)
  also have "\<dots> = Some (settle_nodes (set (arrays h (children (promises h this)))) (fulfil v) ?h3,
                        Inr VNull)"
    using resolve_children_leaves [OF l, of n v] by (simp add: a and_then_def try_catch_def)
  finally show ?thesis .
qed

lemma resolve_returning_over_leaves:
  assumes "\<forall>c \<in> set (arrays h (children (promises h this))). leaf h c"
    and "onFulfilled (promises h this) = Some (FReturn f)"
    and "\<forall>a. f v \<noteq> VPromise a"
  shows "p_resolve (Suc (Suc (Suc (length (arrays h (children (promises h this))) + n)))) h this v =
           Some (settle_nodes (set (arrays h (children (promises h this)))) (fulfil v)
                   (upd_promise this (fulfil v) h\<lparr>calls := calls h @ [v]\<rparr>),
                 Inr (f v))"
proof -
  let ?h3 = "upd_promise this (fulfil v) h\<lparr>calls := calls h @ [v]\<rparr>"
  let ?m = "Suc (Suc (length (arrays h (children (promises h this))) + n))"
  have a: "arrays ?h3 = arrays h" by (simp add: upd_promise_def)
  have l: "\<forall>c \<in> set (drop 0 (arrays ?h3 (children (promises h this)))). leaf ?h3 c"
    using assms(1) by (simp add: leaf_def upd_promise_def fulfil_def)
  have nm: "(case f v of VPromise returnedPromise \<Rightarrow> x returnedPromise | _ \<Rightarrow> y) = y"
    for x :: "nat \<Rightarrow> outcome" and y :: outcome
    using assms(3) by (cases "f v") simp_all
  have "p_resolve (Suc ?m) h this v =
          try_catch (and_then (exec ?m (ResolveChildren (children (promises h this)) 0 v) ?h3)
                       (\<lambda>h4 _. Some (h4, Inr (f v))))
            (\<lambda>h5 e. and_then (exec ?m (Reject this (VStr (message e))) h5)
                        (\<lambda>h6 _. Some (h6, Inr VNull)))"
    using assms(2)
    by (simp add: p_resolve_def exec_Suc [of ?m "Resolve this v"]
          exec_Suc [of _ "CallOnFulfilled (FReturn f) v"] nm
          fulfil_def upd_promise_def and_then_def Let_def)
  also have "\<dots> = Some (settle_nodes (set (arrays h (children (promises h this)))) (fulfil v) ?h3,
                        Inr (f v))"
    using resolve_children_leaves [OF l, of n v] by (simp add: a and_then_def try_catch_def)
  finally show ?thesis .
qed


lemma continuation_failure:
  assumes "\<forall>c \<in> set (arrays h (children (promises h this))). leaf h c"
    and "onFulfilled (promises h this) = Some (FThrow msg)"
    and "onRejected (promises h this) = None" and "\<not> rejectWasConsumed (promises h this)"
  shows "p_resolve (Suc (Suc (Suc (Suc (length (arrays h (children (promises h this))) + n))))) h this v =
           Some (settle_nodes (set (arrays h (children (promises h this)))) (refuse (VStr msg))
                   (upd_promise this (refuse (VStr msg))
                      (upd_promise this (fulfil v) h\<lparr>calls := calls h @ [v]\<rparr>)),
                 Inr VNull)"
proof -
  let ?h1 = "upd_promise this (fulfil v) h\<lparr>calls := calls h @ [v]\<rparr>"
  let ?m = "Suc (Suc (Suc (length (arrays h (children (promises h this))) + n)))"
  have c: "children (promises ?h1 this) = children (promises h this)"
    and a: "arrays ?h1 = arrays h"
    by (simp_all add: upd_promise_def fulfil_def)
  have l: "\<forall>c \<in> set (arrays ?h1 (children (promises ?h1 this))). leaf ?h1 c"
    using assms(1) by (simp add: leaf_def upd_promise_def fulfil_def)
  have r: "onRejected (promises ?h1 this) = None" "\<not> rejectWasConsumed (promises ?h1 this)"
    using assms(3,4) by (simp_all add: upd_promise_def fulfil_def)
  have "p_resolve (Suc ?m) h this v =
          and_then (p_reject ?m ?h1 this (VStr msg)) (\<lambda>h6 _. Some (h6, Inr VNull))"
    using assms(2)
    by (simp add: p_resolve_def p_reject_def exec_Suc [of ?m "Resolve this v"]
          exec_Suc [of _ "CallOnFulfilled (FThrow msg) v"]
          fulfil_def upd_promise_def and_then_def try_catch_def message_def Let_def)
  also have "\<dots> = Some (settle_nodes (set (arrays h (children (promises h this)))) (refuse (VStr msg))
                          (upd_promise this (refuse (VStr msg)) ?h1), Inr VNull)"
    using reject_unhandled_over_leaves [OF l r, of n "VStr msg"] by (simp add: a and_then_def)
  finally show ?thesis .
qed


lemma resolve_chaining_over_leaves:
  assumes leaves: "\<forall>c \<in> set (arrays h (children (promises h this))). leaf h c \<and> allocated h c"
    and cb: "onFulfilled (promises h this) = Some (FResolve f)"
    and al: "allocated h this"
  shows "\<exists>h'. p_resolve (Suc (Suc (Suc (Suc (Suc (length (arrays h (children (promises h this))) + n))))))
                  h this v = Some (h', Inr (VPromise (Suc (fresh h)))) \<and>
           state (promises h' this) = Fulfilled \<and> result (promises h' this) = v \<and>
           arrays h' (children (promises h' this)) = [] \<and>
           state (promises h' (Suc (fresh h))) = Fulfilled \<and>
           result (promises h' (Suc (fresh h))) = f v \<and>
           arrays h' (children (promises h' (Suc (fresh h)))) = arrays h (children (promises h this)) \<and>
           (\<forall>c \<in> set (arrays h (children (promises h this))).
              state (promises h' c) = Fulfilled \<and> result (promises h' c) = f v) \<and>
           calls h' = calls h @ [v]"
proof -
  let ?A = "children (promises h this)"
  let ?cs = "arrays h ?A"
  let ?F = "fresh h"
  let ?r = "Suc ?F"
  let ?new = "Suc (Suc ?F)"
  let ?m = "Suc (Suc (Suc (length ?cs + n)))"
  let ?h1 = "upd_promise this (fulfil v) h\<lparr>calls := calls h @ [v]\<rparr>"
  let ?h2 = "upd_promise ?r (fulfil (f v)) (fst (new_InternalPromise ?h1))"
  let ?h3 = "upd_promise ?r (\<lambda>p. p\<lparr>children := ?new\<rparr>)
               (?h2\<lparr>arrays := (arrays ?h2)(?A := [], ?new := ?cs), fresh := Suc ?new\<rparr>)"
  let ?h4 = "settle_nodes (set ?cs) (fulfil (f v)) ?h3"
  from al have thisF: "this < ?F" and AF: "?A < ?F" by (simp_all add: allocated_def)
  have notin: "this \<notin> set ?cs"
    using leaves cb by (auto simp: leaf_def)
  have callback: "exec (Suc ?m) (CallOnFulfilled (FResolve f) v) (upd_promise this (fulfil v) h) =
                    Some (?h2, Inr (VPromise ?r))"
    by (simp add: exec_Suc [of ?m] exec_Suc [of "Suc (Suc (length ?cs + n))"]
          exec_Suc [of "Suc (length ?cs + n)"] exec_Suc [of "length ?cs + n"]
          fulfil_def run_defs)
  have A2: "children (promises ?h2 this) = ?A" "arrays ?h2 ?A = ?cs" "fresh ?h2 = ?new"
    "state (promises ?h2 ?r) = Fulfilled"
    using thisF AF by (simp_all add: fulfil_def run_defs)
  have l3: "\<forall>c \<in> set (drop 0 (arrays ?h3 ?new)). leaf ?h3 c"
    using leaves notin thisF AF by (auto simp: leaf_def allocated_def fulfil_def run_defs)
  have r3: "result (promises ?h3 ?r) = f v" "arrays ?h3 ?new = ?cs"
    by (simp_all add: fulfil_def run_defs)
  have move: "exec (Suc ?m) (MoveChildren ?r ?A) ?h2 = Some (?h4, Inr VUndefined)"
  proof -
    have "exec (Suc ?m) (MoveChildren ?r ?A) ?h2 = exec ?m (MoveResolve ?r ?new 0) ?h3"
      using A2 by (simp add: exec_Suc [of ?m] isFulfilled_def upd_promise_def Let_def)
    also have "\<dots> = Some (?h4, Inr VUndefined)"
      using move_resolve_leaves [OF l3, of "Suc n" ?r] unfolding r3 by simp
    finally show ?thesis .
  qed
  have A4: "children (promises ?h4 this) = ?A" "arrays ?h4 ?A = []"
    using thisF AF notin by (simp_all add: fulfil_def run_defs)
  have loop: "exec (Suc ?m) (ResolveChildren ?A 0 v) ?h4 = Some (?h4, Inr VUndefined)"
    using A4 by (simp add: exec_Suc [of ?m])
  have "p_resolve (Suc (Suc ?m)) h this v = Some (?h4, Inr (VPromise ?r))"
    using cb callback move loop A2(1) A4(1)
    by (simp add: p_resolve_def exec_Suc [of "Suc ?m" "Resolve this v"] fulfil_def
          and_then_def try_catch_def upd_promise_def Let_def)
  moreover have "state (promises ?h4 this) = Fulfilled \<and> result (promises ?h4 this) = v \<and>
      arrays ?h4 (children (promises ?h4 this)) = [] \<and>
      state (promises ?h4 ?r) = Fulfilled \<and> result (promises ?h4 ?r) = f v \<and>
      arrays ?h4 (children (promises ?h4 ?r)) = ?cs \<and>
      (\<forall>c \<in> set ?cs. state (promises ?h4 c) = Fulfilled \<and> result (promises ?h4 c) = f v) \<and>
      calls ?h4 = calls h @ [v]"
    using thisF AF notin leaves by (auto simp: allocated_def fulfil_def run_defs)
  ultimately show ?thesis by blast
qed

lemma settle_nodes_idem:
  assumes "\<And>p. f (f p) = f p"
  shows "settle_nodes S f (settle_nodes S f h) = settle_nodes S f h"
  by (cases h) (auto simp: settle_nodes_def fun_eq_iff assms)

lemma resolve_handing_over_leaves:
  assumes leaves: "\<forall>c \<in> set (arrays h (children (promises h this))). leaf h c \<and> allocated h c"
    and cb: "onFulfilled (promises h this) = Some (FReturn f)"
    and al: "allocated h this"
    and ret: "f v = VPromise a" and other: "a \<noteq> this"
    and nochild: "state (promises h a) = Pending \<or> a \<notin> set (arrays h (children (promises h this)))"
  shows "\<exists>h'. p_resolve (Suc (Suc (Suc (Suc (Suc (length (arrays h (children (promises h this))) + n))))))
                  h this v = Some (h', Inr (VPromise a)) \<and>
           state (promises h' this) = Fulfilled \<and> result (promises h' this) = v \<and>
           arrays h' (children (promises h' this)) = [] \<and>
           state (promises h' a) = state (promises h a) \<and>
           result (promises h' a) = result (promises h a) \<and>
           reason (promises h' a) = reason (promises h a) \<and>
           arrays h' (children (promises h' a)) = arrays h (children (promises h this)) \<and>
           (state (promises h a) = Pending \<longrightarrow>
              (\<forall>c \<in> set (arrays h (children (promises h this))).
                 state (promises h' c) = state (promises h c) \<and>
                 result (promises h' c) = result (promises h c) \<and>
                 reason (promises h' c) = reason (promises h c))) \<and>
           (state (promises h a) = Fulfilled \<longrightarrow>
              (\<forall>c \<in> set (arrays h (children (promises h this))).
                 state (promises h' c) = Fulfilled \<and>
                 result (promises h' c) = result (promises h a))) \<and>
           (state (promises h a) = Rejected \<longrightarrow>
              (\<forall>c \<in> set (arrays h (children (promises h this))).
                 state (promises h' c) = Rejected \<and>
                 reason (promises h' c) = reason (promises h a)))"
proof -
  let ?A = "children (promises h this)"
  let ?cs = "arrays h ?A"
  let ?F = "fresh h"
  let ?m = "Suc (Suc (Suc (length ?cs + n)))"
  let ?h1 = "upd_promise this (fulfil v) h\<lparr>calls := calls h @ [v]\<rparr>"
  let ?h3 = "upd_promise a (\<lambda>p. p\<lparr>children := ?F\<rparr>)
               (?h1\<lparr>arrays := (arrays ?h1)(?A := [], ?F := ?cs), fresh := Suc ?F\<rparr>)"
  from al have thisF: "this < ?F" and AF: "?A < ?F" by (simp_all add: allocated_def)
  have notin: "this \<notin> set ?cs"
    using leaves cb by (auto simp: leaf_def)
  have callback: "exec (Suc ?m) (CallOnFulfilled (FReturn f) v) (upd_promise this (fulfil v) h) =
                    Some (?h1, Inr (VPromise a))"
    by (simp add: exec_Suc [of ?m] ret fulfil_def run_defs)
  have A1: "children (promises ?h1 this) = ?A" "arrays ?h1 ?A = ?cs" "fresh ?h1 = ?F"
    "state (promises ?h1 a) = state (promises h a)"
    using other by (simp_all add: fulfil_def run_defs)
  have r3: "result (promises ?h3 a) = result (promises h a)"
    "reason (promises ?h3 a) = reason (promises h a)" "arrays ?h3 ?F = ?cs"
    using other by (simp_all add: fulfil_def run_defs)
  have run: "p_resolve (Suc (Suc ?m)) h this v = Some (h4, Inr (VPromise a))"
    if move: "exec (Suc ?m) (MoveChildren a ?A) ?h1 = Some (h4, Inr VUndefined)"
      and A4: "children (promises h4 this) = ?A" "arrays h4 ?A = []" for h4
  proof -
    have loop: "exec (Suc ?m) (ResolveChildren ?A 0 v) h4 = Some (h4, Inr VUndefined)"
      using A4 by (simp add: exec_Suc [of ?m])
    show ?thesis
      using cb callback move loop A1(1) A4(1) ret
      by (simp add: p_resolve_def exec_Suc [of "Suc ?m" "Resolve this v"] fulfil_def
            and_then_def try_catch_def upd_promise_def Let_def)
  qed
  show ?thesis
  proof (cases "state (promises h a)")
    case Pending
    have move: "exec (Suc ?m) (MoveChildren a ?A) ?h1 = Some (?h3, Inr VUndefined)"
      using A1 Pending
      by (simp add: exec_Suc [of ?m] isFulfilled_def isRejected_def upd_promise_def Let_def)
    have A4: "children (promises ?h3 this) = ?A" "arrays ?h3 ?A = []"
      using AF other by (simp_all add: fulfil_def run_defs)
    have "state (promises ?h3 this) = Fulfilled" "result (promises ?h3 this) = v"
      "arrays ?h3 (children (promises ?h3 this)) = []"
      "state (promises ?h3 a) = state (promises h a)"
      "result (promises ?h3 a) = result (promises h a)"
      "reason (promises ?h3 a) = reason (promises h a)"
      "arrays ?h3 (children (promises ?h3 a)) = ?cs"
      using AF other by (simp_all add: fulfil_def run_defs)
    moreover have "\<forall>c \<in> set ?cs. state (promises ?h3 c) = state (promises h c) \<and>
        result (promises ?h3 c) = result (promises h c) \<and>
        reason (promises ?h3 c) = reason (promises h c)"
      using notin by (auto simp: fulfil_def run_defs)
    ultimately show ?thesis using run [OF move A4] Pending by auto
  next
    case Fulfilled
    let ?h4 = "settle_nodes (set ?cs) (fulfil (result (promises h a))) ?h3"
    from Fulfilled nochild have nc: "a \<notin> set ?cs" by simp
    have l3: "\<forall>c \<in> set (drop 0 (arrays ?h3 ?F)). leaf ?h3 c"
      using leaves notin nc thisF AF by (auto simp: leaf_def allocated_def fulfil_def run_defs)
    have "exec (Suc ?m) (MoveChildren a ?A) ?h1 = exec ?m (MoveResolve a ?F 0) ?h3"
      using A1 Fulfilled by (simp add: exec_Suc [of ?m] isFulfilled_def upd_promise_def Let_def)
    also have "\<dots> = Some (?h4, Inr VUndefined)"
      using move_resolve_leaves [OF l3, of "Suc n" a] unfolding r3 by simp
    finally have move: "exec (Suc ?m) (MoveChildren a ?A) ?h1 = Some (?h4, Inr VUndefined)" .
    have A4: "children (promises ?h4 this) = ?A" "arrays ?h4 ?A = []"
      using AF other notin by (simp_all add: fulfil_def run_defs)
    have "state (promises ?h4 this) = Fulfilled" "result (promises ?h4 this) = v"
      "arrays ?h4 (children (promises ?h4 this)) = []"
      "state (promises ?h4 a) = state (promises h a)"
      "result (promises ?h4 a) = result (promises h a)"
      "reason (promises ?h4 a) = reason (promises h a)"
      "arrays ?h4 (children (promises ?h4 a)) = ?cs"
      using AF other notin nc by (simp_all add: fulfil_def run_defs)
    moreover have "\<forall>c \<in> set ?cs. state (promises ?h4 c) = Fulfilled \<and>
        result (promises ?h4 c) = result (promises h a)"
      by (simp add: fulfil_def)
    ultimately show ?thesis using run [OF move A4] Fulfilled by auto
  next
    case Rejected
    let ?h4 = "settle_nodes (set ?cs) (refuse (reason (promises h a))) ?h3"
    from Rejected nochild have nc: "a \<notin> set ?cs" by simp
    have l3: "\<forall>c \<in> set (drop 0 (arrays ?h3 ?F)). leaf ?h3 c"
      using leaves notin nc thisF AF by (auto simp: leaf_def allocated_def fulfil_def run_defs)
    have "exec (Suc ?m) (MoveChildren a ?A) ?h1 = exec ?m (MoveReject a ?F 0) ?h3"
      using A1 Rejected
      by (simp add: exec_Suc [of ?m] isFulfilled_def isRejected_def upd_promise_def Let_def)
    also have "\<dots> = Some (?h4, Inr VUndefined)"
      using move_reject_leaves [OF l3, of "Suc n" a] unfolding r3 by simp
    finally have move: "exec (Suc ?m) (MoveChildren a ?A) ?h1 = Some (?h4, Inr VUndefined)" .
    have A4: "children (promises ?h4 this) = ?A" "arrays ?h4 ?A = []"
      using AF other notin by (simp_all add: fulfil_def refuse_def run_defs)
    have "state (promises ?h4 this) = Fulfilled" "result (promises ?h4 this) = v"
      "arrays ?h4 (children (promises ?h4 this)) = []"
      "state (promises ?h4 a) = state (promises h a)"
      "result (promises ?h4 a) = result (promises h a)"
      "reason (promises ?h4 a) = reason (promises h a)"
      "arrays ?h4 (children (promises ?h4 a)) = ?cs"
      using AF other notin nc by (simp_all add: fulfil_def refuse_def run_defs)
    moreover have "\<forall>c \<in> set ?cs. state (promises ?h4 c) = Rejected \<and>
        reason (promises ?h4 c) = reason (promises h a)"
      by (simp add: refuse_def)
    ultimately show ?thesis using run [OF move A4] Rejected by auto
  qed
qed

lemma resolve_returning_itself_over_leaves:
  assumes leaves: "\<forall>c \<in> set (arrays h (children (promises h this))). leaf h c \<and> allocated h c"
    and cb: "onFulfilled (promises h this) = Some (FReturn f)"
    and al: "allocated h this"
    and ret: "f v = VPromise this"
  shows "\<exists>h'. p_resolve (Suc (Suc (Suc (Suc (Suc (length (arrays h (children (promises h this))) + n))))))
                  h this v = Some (h', Inr (VPromise this)) \<and>
           state (promises h' this) = Fulfilled \<and> result (promises h' this) = v \<and>
           arrays h' (children (promises h' this)) = arrays h (children (promises h this)) \<and>
           (\<forall>c \<in> set (arrays h (children (promises h this))).
              state (promises h' c) = Fulfilled \<and> result (promises h' c) = v) \<and>
           calls h' = calls h @ [v]"
proof -
  let ?A = "children (promises h this)"
  let ?cs = "arrays h ?A"
  let ?F = "fresh h"
  let ?m = "Suc (Suc (Suc (length ?cs + n)))"
  let ?h1 = "upd_promise this (fulfil v) h\<lparr>calls := calls h @ [v]\<rparr>"
  let ?h3 = "upd_promise this (\<lambda>p. p\<lparr>children := ?F\<rparr>)
               (?h1\<lparr>arrays := (arrays ?h1)(?A := [], ?F := ?cs), fresh := Suc ?F\<rparr>)"
  let ?h4 = "settle_nodes (set ?cs) (fulfil v) ?h3"
  from al have thisF: "this < ?F" and AF: "?A < ?F" by (simp_all add: allocated_def)
  have notin: "this \<notin> set ?cs"
    using leaves cb by (auto simp: leaf_def)
  have callback: "exec (Suc ?m) (CallOnFulfilled (FReturn f) v) (upd_promise this (fulfil v) h) =
                    Some (?h1, Inr (VPromise this))"
    by (simp add: exec_Suc [of ?m] ret fulfil_def run_defs)
  have A1: "children (promises ?h1 this) = ?A" "arrays ?h1 ?A = ?cs" "fresh ?h1 = ?F"
    "state (promises ?h1 this) = Fulfilled"
    by (simp_all add: fulfil_def run_defs)
  have l3: "\<forall>c \<in> set (drop 0 (arrays ?h3 ?F)). leaf ?h3 c"
    using leaves notin thisF AF by (auto simp: leaf_def allocated_def fulfil_def run_defs)
  have r3: "result (promises ?h3 this) = v" "arrays ?h3 ?F = ?cs"
    by (simp_all add: fulfil_def run_defs)
  have move: "exec (Suc ?m) (MoveChildren this ?A) ?h1 = Some (?h4, Inr VUndefined)"
  proof -
    have "exec (Suc ?m) (MoveChildren this ?A) ?h1 = exec ?m (MoveResolve this ?F 0) ?h3"
      using A1 by (simp add: exec_Suc [of ?m] isFulfilled_def upd_promise_def Let_def)
    also have "\<dots> = Some (?h4, Inr VUndefined)"
      using move_resolve_leaves [OF l3, of "Suc n" this] unfolding r3 by simp
    finally show ?thesis .
  qed
  have A4: "children (promises ?h4 this) = ?F" "arrays ?h4 ?F = ?cs"
    using notin by (simp_all add: fulfil_def run_defs)
  have l4: "\<forall>c \<in> set (drop 0 (arrays ?h4 ?F)). leaf ?h4 c"
    using leaves notin thisF AF by (auto simp: leaf_def allocated_def fulfil_def run_defs)
  have e1: "Suc (Suc (length (arrays ?h4 ?F) - 0 + Suc (Suc n))) = Suc ?m"
    unfolding A4(2) by simp
  have e2: "settle_nodes (set (drop 0 (arrays ?h4 ?F))) (fulfil v) ?h4 = ?h4"
    unfolding A4(2) drop_0 by (rule settle_nodes_idem) (simp add: fulfil_def)
  have loop: "exec (Suc ?m) (ResolveChildren ?F 0 v) ?h4 = Some (?h4, Inr VUndefined)"
    using resolve_children_leaves [OF l4, of "Suc (Suc n)" v] unfolding e1 e2 .
  have "p_resolve (Suc (Suc ?m)) h this v = Some (?h4, Inr (VPromise this))"
    using cb callback move loop A1(1) A4(1) ret
    by (simp add: p_resolve_def exec_Suc [of "Suc ?m" "Resolve this v"] fulfil_def
          and_then_def try_catch_def upd_promise_def Let_def)
  moreover have "state (promises ?h4 this) = Fulfilled \<and> result (promises ?h4 this) = v \<and>
      arrays ?h4 (children (promises ?h4 this)) = ?cs \<and>
      (\<forall>c \<in> set ?cs. state (promises ?h4 c) = Fulfilled \<and> result (promises ?h4 c) = v) \<and>
      calls ?h4 = calls h @ [v]"
  proof (intro conjI ballI)
    show "state (promises ?h4 this) = Fulfilled" "result (promises ?h4 this) = v"
      using notin by (simp_all add: fulfil_def run_defs)
    show "arrays ?h4 (children (promises ?h4 this)) = ?cs"
      unfolding A4(1) by (rule A4(2))
    show "calls ?h4 = calls h @ [v]"
      by (simp add: run_defs)
  next
    fix c assume c: "c \<in> set ?cs"
    then show "state (promises ?h4 c) = Fulfilled" "result (promises ?h4 c) = v"
      by (simp_all add: fulfil_def)
  qed
  ultimately show ?thesis by blast
qed
subsection \<open>One input of \<^verbatim>\<open>all\<close> is settled\<close>





subsection \<open>The aggregator under a sequence of events\<close>

















subsection \<open>The loop of \<^verbatim>\<open>all\<close> over pending inputs\<close>








section \<open>Fuel\<close>

text \<open>The fuel only bounds the depth of the call stack: once a call returns with some
  amount of fuel, it returns the same heap and the same outcome with any larger amount.\<close>

lemma and_then_mono:
  assumes "and_then m f \<noteq> None"
    and "m \<noteq> None \<Longrightarrow> m' = m"
    and "\<And>h x. f h x \<noteq> None \<Longrightarrow> f' h x = f h x"
  shows "and_then m' f' = and_then m f"
  using assms by (cases m) (auto simp: and_then_def split: sum.splits)

lemma try_catch_mono:
  assumes "try_catch m f \<noteq> None"
    and "m \<noteq> None \<Longrightarrow> m' = m"
    and "\<And>h x. f h x \<noteq> None \<Longrightarrow> f' h x = f h x"
  shows "try_catch m' f' = try_catch m f"
  using assms by (cases m) (auto simp: try_catch_def split: sum.splits)

lemma step_mono:
  assumes le: "\<And>c h. self c h \<noteq> None \<Longrightarrow> self' c h = self c h"
  shows "step self c h \<noteq> None \<Longrightarrow> step self' c h = step self c h"
proof (cases c)
  case (Resolve this v)
  then show "step self c h \<noteq> None \<Longrightarrow> step self' c h = step self c h"
    unfolding Resolve
    apply (simp only: step.simps Let_def)
    apply (erule try_catch_mono)
     apply (erule and_then_mono)
      apply (cases "onFulfilled (promises (upd_promise this (\<lambda>p. p\<lparr>state := Fulfilled, result := v\<rparr>) h) this)")
       apply simp
      apply (simp only: option.case)
      apply (erule le)
     apply (erule and_then_mono)
      subgoal for h2 x by (cases x) (simp_all only: val.case, (erule le)?)
     apply (erule and_then_mono)
      apply (erule le)
     apply simp
    apply (erule and_then_mono)
     apply (erule le)
    apply simp
    done
next
  case (Reject this r)
  then show "step self c h \<noteq> None \<Longrightarrow> step self' c h = step self c h"
    unfolding Reject
    apply (simp only: step.simps Let_def)
    apply (erule and_then_mono)
     apply (cases "onRejected (promises (upd_promise this (\<lambda>p. p\<lparr>state := Rejected, reason := r\<rparr>) h) this)")
      apply simp
     apply (simp only: option.case)
     apply (erule and_then_mono)
      apply (erule le)
     apply simp
    apply (erule le)
    done
next
  case (MoveChildren this arr)
  then show "step self c h \<noteq> None \<Longrightarrow> step self' c h = step self c h"
    unfolding MoveChildren
    by (simp only: step.simps Let_def split: if_splits) (auto intro: le)
next
  case (ResolveChildren arr i v)
  then show "step self c h \<noteq> None \<Longrightarrow> step self' c h = step self c h"
    unfolding ResolveChildren
    apply (simp only: step.simps)
    apply (cases "i < length (arrays h arr)")
     apply (simp only: if_True)
     apply (erule and_then_mono)
      apply (erule le)
     apply (erule le)
    apply simp
    done
next
  case (RejectChildren this arr i r)
  then show "step self c h \<noteq> None \<Longrightarrow> step self' c h = step self c h"
    unfolding RejectChildren
    apply (simp only: step.simps)
    apply (cases "i < length (arrays h arr)")
     apply (simp only: if_True)
     apply (erule and_then_mono)
      apply (cases "rejectWasConsumed (promises h this)")
       apply (simp only: if_True)
       apply (erule le)
      apply (simp only: if_False)
      apply (erule le)
     apply (erule le)
    apply simp
    done
next
  case (MoveResolve this arr i)
  then show "step self c h \<noteq> None \<Longrightarrow> step self' c h = step self c h"
    unfolding MoveResolve
    apply (simp only: step.simps)
    apply (cases "i < length (arrays h arr)")
     apply (simp only: if_True)
     apply (erule and_then_mono)
      apply (erule le)
     apply (erule le)
    apply simp
    done
next
  case (MoveReject this arr i)
  then show "step self c h \<noteq> None \<Longrightarrow> step self' c h = step self c h"
    unfolding MoveReject
    apply (simp only: step.simps)
    apply (cases "i < length (arrays h arr)")
     apply (simp only: if_True)
     apply (erule and_then_mono)
      apply (erule le)
     apply (erule le)
    apply simp
    done
next
  case (CallOnFulfilled cb v)
  show "step self c h \<noteq> None \<Longrightarrow> step self' c h = step self c h"
  proof (cases cb)
    case (FReturn f)
    then show "step self c h \<noteq> None \<Longrightarrow> step self' c h = step self c h"
      unfolding CallOnFulfilled by simp
  next
    case (FResolve f)
    then show "step self c h \<noteq> None \<Longrightarrow> step self' c h = step self c h"
      unfolding CallOnFulfilled by (simp only: step.simps) (erule le)
  next
    case (FThrow msg)
    then show "step self c h \<noteq> None \<Longrightarrow> step self' c h = step self c h"
      unfolding CallOnFulfilled by simp
  next
    case (FAggregate agregator index)
    then show "step self c h \<noteq> None \<Longrightarrow> step self' c h = step self c h"
      unfolding CallOnFulfilled
      apply (simp only: step.simps Let_def)
      apply (cases "count (agregators h agregator
               \<lparr>results := array_set (results (agregators h agregator)) index v,
                  count := Suc (count (agregators h agregator))\<rparr>) =
             target (agregators h agregator
               \<lparr>results := array_set (results (agregators h agregator)) index v,
                  count := Suc (count (agregators h agregator))\<rparr>)")
       apply (simp only: if_True simp_thms)
       apply (erule and_then_mono)
        apply (erule le)
       apply simp
      apply simp
      done
  qed
next
  case (CallOnRejected cb r)
  show "step self c h \<noteq> None \<Longrightarrow> step self' c h = step self c h"
  proof (cases cb)
    case RRecord
    then show "step self c h \<noteq> None \<Longrightarrow> step self' c h = step self c h"
      unfolding CallOnRejected by simp
  next
    case (RThrow msg)
    then show "step self c h \<noteq> None \<Longrightarrow> step self' c h = step self c h"
      unfolding CallOnRejected by simp
  next
    case (RAggregate agregator)
    then show "step self c h \<noteq> None \<Longrightarrow> step self' c h = step self c h"
      unfolding CallOnRejected
      apply (simp only: step.simps Let_def)
      apply (cases "isRejected (promises h (rootPromise (agregators h agregator)))")
       apply simp
      apply (simp only: if_True not_False_eq_True)
      apply (erule and_then_mono)
       apply (erule le)
      apply simp
      done
  qed
next
  case (StaticResolve v)
  then show "step self c h \<noteq> None \<Longrightarrow> step self' c h = step self c h"
    unfolding StaticResolve
    apply (simp only: step.simps)
    apply (cases "new_InternalPromise h")
    apply (simp only: prod.case)
    apply (erule and_then_mono)
     apply (erule le)
    apply simp
    done
qed

lemma exec_mono: "exec n c h \<noteq> None \<Longrightarrow> exec (n + k) c h = exec n c h"
proof (induction n arbitrary: c h)
  case 0
  then show ?case by simp
next
  case (Suc n)
  from step_mono [of "exec n" "exec (n + k)" c h] Suc show ?case
    by (simp add: exec_Suc)
qed

lemma exec_more_fuel:
  assumes "exec n c h = Some r" and "n \<le> m"
  shows "exec m c h = Some r"
proof -
  from assms(2) obtain k where m: "m = n + k" by (auto simp: le_iff_add)
  from assms(1) have "exec n c h \<noteq> None" by simp
  from exec_mono [OF this, of k] assms(1) show ?thesis unfolding m by simp
qed

section \<open>The claims\<close>

subsection \<open>The accessors \<^verbatim>\<open>value()\<close> and \<^verbatim>\<open>reason()\<close>\<close>

text \<open>
  C8. \<^verbatim>\<open>value()\<close> throws exactly when the node is not Fulfilled, that is when it is
  Pending or Rejected, and returns the stored result otherwise; \<^verbatim>\<open>reason()\<close> throws
  exactly when the node is not Rejected, that is when it is Pending or Fulfilled, and
  returns the stored reason otherwise.
\<close>

theorem accessors_invalid_state:
  "(state p \<noteq> Fulfilled \<longrightarrow> promise_value p = Inl (Error ''Promise is not fulfilled'')) \<and>
   (state p = Fulfilled \<longrightarrow> promise_value p = Inr (result p)) \<and>
   (state p \<noteq> Rejected \<longrightarrow> promise_reason p = Inl (Error ''Promise is not rejected'')) \<and>
   (state p = Rejected \<longrightarrow> promise_reason p = Inr (reason p)) \<and>
   ((\<exists>e. promise_value p = Inl e) \<longleftrightarrow> (state p = Pending \<or> state p = Rejected)) \<and>
   ((\<exists>e. promise_reason p = Inl e) \<longleftrightarrow> (state p = Pending \<or> state p = Fulfilled))"
  by (cases "state p")
     (simp_all add: promise_value_def promise_reason_def isFulfilled_def isRejected_def)

theorem accessors_invalid_state_witness:
  "promise_value (promises empty_heap 0\<lparr>state := Fulfilled, result := VNum 7\<rparr>) = Inr (VNum 7) \<and>
   promise_reason (promises empty_heap 0\<lparr>state := Fulfilled, result := VNum 7\<rparr>)
     = Inl (Error ''Promise is not rejected'') \<and>
   promise_value (promises empty_heap 0\<lparr>state := Rejected, reason := VStr ''boom''\<rparr>)
     = Inl (Error ''Promise is not fulfilled'') \<and>
   promise_reason (promises empty_heap 0\<lparr>state := Rejected, reason := VStr ''boom''\<rparr>)
     = Inr (VStr ''boom'') \<and>
   promise_value (promises empty_heap 0) = Inl (Error ''Promise is not fulfilled'') \<and>
   promise_reason (promises empty_heap 0) = Inl (Error ''Promise is not rejected'')"
  using accessors_invalid_state [of "promises empty_heap 0\<lparr>state := Fulfilled, result := VNum 7\<rparr>"]
    accessors_invalid_state [of "promises empty_heap 0\<lparr>state := Rejected, reason := VStr ''boom''\<rparr>"]
    accessors_invalid_state [of "promises empty_heap 0"]
  by (simp add: empty_heap_def)

subsection \<open>A rejection handler that throws\<close>

text \<open>
  C10. When the \<^verbatim>\<open>onRejected\<close> handler of a node throws while the node is rejected,
  the exception leaves \<^verbatim>\<open>_reject\<close>. The heap it leaves differs from the one before the
  call only in the state and reason of that node (and in the record of the handler's
  call): no node is rejected with the exception's message, \<^verbatim>\<open>_rejectWasConsumed\<close> is not
  assigned, and no child is resolved or rejected.
\<close>

theorem raising_onRejected_propagates:
  assumes "onRejected (promises h this) = Some (RThrow msg)"
  shows "p_reject (Suc (Suc n)) h this r =
           Some (h\<lparr>promises :=
                     (promises h)(this := (promises h this)\<lparr>state := Rejected, reason := r\<rparr>),
                   calls := calls h @ [r]\<rparr>,
                 Inl (Error msg))"
  using assms by (simp add: exec_Suc run_defs)

theorem raising_onRejected_propagates_witness:
  "onRejected (promises (fan_heap None (Some (RThrow ''boom''))) 1) = Some (RThrow ''boom'') \<and>
   (\<exists>h'. p_reject (Suc (Suc 0)) (fan_heap None (Some (RThrow ''boom''))) 1 (VStr ''R'')
            = Some (h', Inl (Error ''boom'')) \<and>
          state (promises h' 1) = Rejected \<and> reason (promises h' 1) = VStr ''R'' \<and>
          \<not> rejectWasConsumed (promises h' 1) \<and> calls h' = [VStr ''R''] \<and>
          arrays h' 0 = [3, 5] \<and>
          state (promises h' 3) = Pending \<and> state (promises h' 5) = Pending)"
  using raising_onRejected_propagates
    [of "fan_heap None (Some (RThrow ''boom''))" 1 "''boom''" 0 "VStr ''R''"]
  by (simp add: fan_heap_def empty_heap_def run_defs)

subsection \<open>\<^verbatim>\<open>all\<close> of no input\<close>

text \<open>
  C2. The claim is that \<^verbatim>\<open>all([])\<close> returns a promise that is already Fulfilled with the
  empty sequence. The code tests \<^verbatim>\<open>count === target\<close> only inside the fulfilment
  closure of an input, so with no input the root is never settled: on every heap the
  returned promise is Pending and \<^verbatim>\<open>value()\<close> throws.
\<close>

theorem all_of_none_stays_pending:
  "\<exists>h' root. static_all n h [] = Some (h', Inr (VPromise root)) \<and>
     state (promises h' root) = Pending \<and>
     promise_value (promises h' root) = Inl (Error ''Promise is not fulfilled'')"
  by (simp add: static_all_def new_FulFillmentAgregator_def promise_value_def run_defs)

subsection \<open>Rejection and its consumption\<close>

lemma rejection_chain_result:
  "\<exists>h A B C D. rejection_chain (Suc (Suc (Suc (Suc (Suc (Suc n)))))) h0 R = Some (h, A, B, C, D) \<and>
     state (promises h A) = Rejected \<and> reason (promises h A) = R \<and>
     state (promises h B) = Rejected \<and> reason (promises h B) = R \<and>
     rejectWasConsumed (promises h B) \<and> calls h = calls h0 @ [R] \<and>
     state (promises h C) = Fulfilled \<and> result (promises h C) = VNull \<and>
     state (promises h D) = Rejected \<and> reason (promises h D) = R"
  by (simp add: rejection_chain_def api_defs exec_Suc run_defs)

lemma rejection_chain_late_result:
  "\<exists>h A B C D. rejection_chain_late (Suc (Suc (Suc (Suc n)))) h0 R = Some (h, A, B, C, D) \<and>
     state (promises h A) = Rejected \<and> reason (promises h A) = R \<and>
     state (promises h B) = Rejected \<and> reason (promises h B) = R \<and>
     rejectWasConsumed (promises h B) \<and> calls h = calls h0 @ [R] \<and>
     state (promises h C) = Fulfilled \<and> result (promises h C) = VUndefined \<and>
     state (promises h D) = Rejected \<and> reason (promises h D) = R"
  by (simp add: rejection_chain_late_def api_defs exec_Suc run_defs)

text \<open>
  C4. A node whose children are plain nodes is rejected with \<open>R\<close>. If it has a rejection
  handler (one that returns), the handler is called with \<open>R\<close>, the node is marked as
  having consumed the rejection and every child ends Fulfilled with \<^verbatim>\<open>null\<close>; if it has
  no handler, every child ends Rejected with \<open>R\<close>. In the chain
  \<open>A \<rightarrow> B = A.catch(h) \<rightarrow> C\<close> with the sibling \<open>D = A.then()\<close>, built on any heap, rejecting
  \<open>A\<close> with \<open>R\<close> leaves \<open>C\<close> Fulfilled without a value and \<open>D\<close> Rejected with \<open>R\<close>,
  whether \<open>A\<close> is rejected after the chain is built or before.
\<close>

theorem rejection_consumption:
  assumes "\<forall>c \<in> set (arrays h (children (promises h this))). leaf h c"
  shows
   "(onRejected (promises h this) = Some RRecord \<longrightarrow>
       (\<exists>h'. p_reject (Suc (Suc (Suc (length (arrays h (children (promises h this))) + n)))) h this R
                = Some (h', Inr VUndefined) \<and>
          calls h' = calls h @ [R] \<and> rejectWasConsumed (promises h' this) \<and>
          state (promises h' this) = Rejected \<and> reason (promises h' this) = R \<and>
          (\<forall>c \<in> set (arrays h (children (promises h this))).
             state (promises h' c) = Fulfilled \<and> result (promises h' c) = VNull))) \<and>
    (onRejected (promises h this) = None \<and> \<not> rejectWasConsumed (promises h this) \<longrightarrow>
       (\<exists>h'. p_reject (Suc (Suc (Suc (length (arrays h (children (promises h this))) + n)))) h this R
                = Some (h', Inr VUndefined) \<and>
          calls h' = calls h \<and> \<not> rejectWasConsumed (promises h' this) \<and>
          state (promises h' this) = Rejected \<and> reason (promises h' this) = R \<and>
          (\<forall>c \<in> set (arrays h (children (promises h this))).
             state (promises h' c) = Rejected \<and> reason (promises h' c) = R))) \<and>
    (\<exists>h' A B C D.
       rejection_chain (Suc (Suc (Suc (Suc (Suc (Suc n)))))) h0 R = Some (h', A, B, C, D) \<and>
       calls h' = calls h0 @ [R] \<and>
       state (promises h' C) = Fulfilled \<and> result (promises h' C) = VNull \<and>
       state (promises h' D) = Rejected \<and> reason (promises h' D) = R) \<and>
    (\<exists>h' A B C D.
       rejection_chain_late (Suc (Suc (Suc (Suc n)))) h0 R = Some (h', A, B, C, D) \<and>
       calls h' = calls h0 @ [R] \<and>
       state (promises h' C) = Fulfilled \<and> result (promises h' C) = VUndefined \<and>
       state (promises h' D) = Rejected \<and> reason (promises h' D) = R)"
proof (intro conjI impI)
  assume hd: "onRejected (promises h this) = Some RRecord"
  then have "this \<notin> set (arrays h (children (promises h this)))"
    using assms by (auto simp: leaf_def)
  then show "\<exists>h'. p_reject (Suc (Suc (Suc (length (arrays h (children (promises h this))) + n)))) h this R
                = Some (h', Inr VUndefined) \<and>
          calls h' = calls h @ [R] \<and> rejectWasConsumed (promises h' this) \<and>
          state (promises h' this) = Rejected \<and> reason (promises h' this) = R \<and>
          (\<forall>c \<in> set (arrays h (children (promises h this))).
             state (promises h' c) = Fulfilled \<and> result (promises h' c) = VNull)"
    by (simp add: reject_consumed_over_leaves [OF assms hd] fulfil_def refuse_def upd_promise_def)
next
  assume "onRejected (promises h this) = None \<and> \<not> rejectWasConsumed (promises h this)"
  then have hd: "onRejected (promises h this) = None" and fl: "\<not> rejectWasConsumed (promises h this)"
    by simp_all
  show "\<exists>h'. p_reject (Suc (Suc (Suc (length (arrays h (children (promises h this))) + n)))) h this R
                = Some (h', Inr VUndefined) \<and>
          calls h' = calls h \<and> \<not> rejectWasConsumed (promises h' this) \<and>
          state (promises h' this) = Rejected \<and> reason (promises h' this) = R \<and>
          (\<forall>c \<in> set (arrays h (children (promises h this))).
             state (promises h' c) = Rejected \<and> reason (promises h' c) = R)"
    using fl by (simp add: reject_unhandled_over_leaves [OF assms hd fl] refuse_def upd_promise_def)
next
  show "\<exists>h' A B C D.
       rejection_chain (Suc (Suc (Suc (Suc (Suc (Suc n)))))) h0 R = Some (h', A, B, C, D) \<and>
       calls h' = calls h0 @ [R] \<and>
       state (promises h' C) = Fulfilled \<and> result (promises h' C) = VNull \<and>
       state (promises h' D) = Rejected \<and> reason (promises h' D) = R"
    using rejection_chain_result [of n h0 R] by blast
next
  show "\<exists>h' A B C D.
       rejection_chain_late (Suc (Suc (Suc (Suc n)))) h0 R = Some (h', A, B, C, D) \<and>
       calls h' = calls h0 @ [R] \<and>
       state (promises h' C) = Fulfilled \<and> result (promises h' C) = VUndefined \<and>
       state (promises h' D) = Rejected \<and> reason (promises h' D) = R"
    using rejection_chain_late_result [of n h0 R] by blast
qed

theorem rejection_consumption_witness:
  "leaf (fan_heap None (Some RRecord)) 3 \<and> leaf (fan_heap None (Some RRecord)) 5 \<and>
   arrays (fan_heap None (Some RRecord)) (children (promises (fan_heap None (Some RRecord)) 1))
     = [3, 5] \<and>
   onRejected (promises (fan_heap None (Some RRecord)) 1) = Some RRecord \<and>
   (\<exists>n h'. p_reject n (fan_heap None (Some RRecord)) 1 (VStr ''R'') = Some (h', Inr VUndefined) \<and>
      calls h' = [VStr ''R''] \<and>
      state (promises h' 3) = Fulfilled \<and> result (promises h' 3) = VNull \<and>
      state (promises h' 5) = Fulfilled \<and> result (promises h' 5) = VNull) \<and>
   leaf (fan_heap None None) 3 \<and> leaf (fan_heap None None) 5 \<and>
   arrays (fan_heap None None) (children (promises (fan_heap None None) 1)) = [3, 5] \<and>
   onRejected (promises (fan_heap None None) 1) = None \<and>
   \<not> rejectWasConsumed (promises (fan_heap None None) 1) \<and>
   (\<exists>n h'. p_reject n (fan_heap None None) 1 (VStr ''R'') = Some (h', Inr VUndefined) \<and>
      calls h' = [] \<and>
      state (promises h' 3) = Rejected \<and> reason (promises h' 3) = VStr ''R'' \<and>
      state (promises h' 5) = Rejected \<and> reason (promises h' 5) = VStr ''R'')"
proof -
  let ?H = "fan_heap None (Some RRecord)"
  let ?K = "fan_heap None None"
  have H: "leaf ?H 3" "leaf ?H 5" "arrays ?H (children (promises ?H 1)) = [3, 5]"
    "onRejected (promises ?H 1) = Some RRecord" "calls ?H = []"
    and K: "leaf ?K 3" "leaf ?K 5" "arrays ?K (children (promises ?K 1)) = [3, 5]"
    "onRejected (promises ?K 1) = None" "\<not> rejectWasConsumed (promises ?K 1)" "calls ?K = []"
    by (simp_all add: fan_heap_def empty_heap_def leaf_def run_defs)
  have l1: "\<forall>c \<in> set (arrays ?H (children (promises ?H 1))). leaf ?H c"
    and l2: "\<forall>c \<in> set (arrays ?K (children (promises ?K 1))). leaf ?K c"
    using H K by simp_all
  have "\<exists>n h'. p_reject n ?H 1 (VStr ''R'') = Some (h', Inr VUndefined) \<and>
      calls h' = [VStr ''R''] \<and>
      state (promises h' 3) = Fulfilled \<and> result (promises h' 3) = VNull \<and>
      state (promises h' 5) = Fulfilled \<and> result (promises h' 5) = VNull"
    using rejection_consumption [OF l1, of 0 "VStr ''R''" empty_heap] H(4)
    unfolding H(3) H(5) by fastforce
  moreover have "\<exists>n h'. p_reject n ?K 1 (VStr ''R'') = Some (h', Inr VUndefined) \<and>
      calls h' = [] \<and>
      state (promises h' 3) = Rejected \<and> reason (promises h' 3) = VStr ''R'' \<and>
      state (promises h' 5) = Rejected \<and> reason (promises h' 5) = VStr ''R''"
    using rejection_consumption [OF l2, of 0 "VStr ''R''" empty_heap] K(4,5)
    unfolding K(3) K(6) by fastforce
  ultimately show ?thesis using H K by blast
qed

subsection \<open>Failures of the resolver and of a continuation\<close>

lemma resolver_failure:
  "\<exists>h' a. promise_new (Suc (Suc n)) h (Some (Throw msg # rest)) = Some (h', Inr (VPromise a)) \<and>
     state (promises h' a) = Rejected \<and> reason (promises h' a) = VStr msg"
  by (simp add: promise_new_def exec_Suc run_defs)

lemma continuation_failure_consumed:
  assumes "\<forall>c \<in> set (arrays h (children (promises h this))). leaf h c"
    and "onFulfilled (promises h this) = Some (FThrow msg)"
    and "onRejected (promises h this) = Some RRecord"
  shows "p_resolve (Suc (Suc (Suc (Suc (length (arrays h (children (promises h this))) + n))))) h this v =
           Some (settle_nodes (set (arrays h (children (promises h this)))) (fulfil VNull)
                   (upd_promise this (\<lambda>p. p\<lparr>rejectWasConsumed := True\<rparr>)
                      (upd_promise this (refuse (VStr msg))
                         (upd_promise this (fulfil v) h\<lparr>calls := calls h @ [v]\<rparr>)
                       \<lparr>calls := calls h @ [v, VStr msg]\<rparr>)),
                 Inr VNull)"
proof -
  let ?h1 = "upd_promise this (fulfil v) h\<lparr>calls := calls h @ [v]\<rparr>"
  let ?m = "Suc (Suc (Suc (length (arrays h (children (promises h this))) + n)))"
  have a: "arrays ?h1 = arrays h"
    by (simp_all add: upd_promise_def fulfil_def)
  have l: "\<forall>c \<in> set (arrays ?h1 (children (promises ?h1 this))). leaf ?h1 c"
    using assms(1) by (simp add: leaf_def upd_promise_def fulfil_def)
  have r: "onRejected (promises ?h1 this) = Some RRecord"
    using assms(3) by (simp_all add: upd_promise_def fulfil_def)
  have "p_resolve (Suc ?m) h this v =
          and_then (p_reject ?m ?h1 this (VStr msg)) (\<lambda>h6 _. Some (h6, Inr VNull))"
    using assms(2)
    by (simp add: p_resolve_def p_reject_def exec_Suc [of ?m "Resolve this v"]
          exec_Suc [of _ "CallOnFulfilled (FThrow msg) v"]
          fulfil_def upd_promise_def and_then_def try_catch_def message_def Let_def)
  also have "\<dots> = Some (settle_nodes (set (arrays h (children (promises h this)))) (fulfil VNull)
                   (upd_promise this (\<lambda>p. p\<lparr>rejectWasConsumed := True\<rparr>)
                      (upd_promise this (refuse (VStr msg)) ?h1
                       \<lparr>calls := calls h @ [v, VStr msg]\<rparr>)), Inr VNull)"
    using reject_consumed_over_leaves [OF l r, of n "VStr msg"] by (simp add: a and_then_def)
  finally show ?thesis .
qed

text \<open>
  C9. (a) A resolver that throws before it has called \<^verbatim>\<open>resolve\<close> or \<^verbatim>\<open>reject\<close>: the
  constructor returns the node, Rejected with the message of the exception. (b) A node
  whose \<^verbatim>\<open>onFulfilled\<close> continuation throws (its children plain nodes, its rejection
  handler absent or one that returns): \<^verbatim>\<open>_resolve\<close> returns and leaves the node Rejected
  with the message of the exception, not Fulfilled.
\<close>

theorem failures_become_rejections:
  assumes "\<forall>c \<in> set (arrays h (children (promises h this))). leaf h c"
    and "onFulfilled (promises h this) = Some (FThrow msg)"
    and "onRejected (promises h this) = None \<and> \<not> rejectWasConsumed (promises h this) \<or>
         onRejected (promises h this) = Some RRecord"
  shows
   "(\<exists>h' a. promise_new (Suc (Suc n)) h0 (Some (Throw msg # rest)) = Some (h', Inr (VPromise a)) \<and>
       state (promises h' a) = Rejected \<and> reason (promises h' a) = VStr msg \<and>
       promise_reason (promises h' a) = Inr (VStr msg)) \<and>
    (\<exists>h'. p_resolve (Suc (Suc (Suc (Suc (length (arrays h (children (promises h this))) + n)))))
             h this v = Some (h', Inr VNull) \<and>
       state (promises h' this) = Rejected \<and> reason (promises h' this) = VStr msg \<and>
       promise_reason (promises h' this) = Inr (VStr msg))"
proof
  show "\<exists>h' a. promise_new (Suc (Suc n)) h0 (Some (Throw msg # rest)) = Some (h', Inr (VPromise a)) \<and>
       state (promises h' a) = Rejected \<and> reason (promises h' a) = VStr msg \<and>
       promise_reason (promises h' a) = Inr (VStr msg)"
    using resolver_failure [of n h0 msg rest] by (auto simp: promise_reason_def isRejected_def)
next
  have notin: "this \<notin> set (arrays h (children (promises h this)))"
    using assms(1,2) by (auto simp: leaf_def)
  from assms(3) show "\<exists>h'. p_resolve (Suc (Suc (Suc (Suc (length (arrays h (children (promises h this))) + n)))))
             h this v = Some (h', Inr VNull) \<and>
       state (promises h' this) = Rejected \<and> reason (promises h' this) = VStr msg \<and>
       promise_reason (promises h' this) = Inr (VStr msg)"
  proof
    assume a: "onRejected (promises h this) = None \<and> \<not> rejectWasConsumed (promises h this)"
    show ?thesis
      using notin
      by (simp add: continuation_failure [OF assms(1,2) conjunct1 [OF a] conjunct2 [OF a]]
            promise_reason_def isRejected_def refuse_def upd_promise_def)
  next
    assume a: "onRejected (promises h this) = Some RRecord"
    show ?thesis
      using notin
      by (simp add: continuation_failure_consumed [OF assms(1,2) a]
            promise_reason_def isRejected_def refuse_def upd_promise_def)
  qed
qed

theorem failures_become_rejections_witness:
  "leaf (fan_heap (Some (FThrow ''boom'')) None) 3 \<and>
   leaf (fan_heap (Some (FThrow ''boom'')) None) 5 \<and>
   arrays (fan_heap (Some (FThrow ''boom'')) None)
     (children (promises (fan_heap (Some (FThrow ''boom'')) None) 1)) = [3, 5] \<and>
   onFulfilled (promises (fan_heap (Some (FThrow ''boom'')) None) 1) = Some (FThrow ''boom'') \<and>
   onRejected (promises (fan_heap (Some (FThrow ''boom'')) None) 1) = None \<and>
   \<not> rejectWasConsumed (promises (fan_heap (Some (FThrow ''boom'')) None) 1) \<and>
   (\<exists>n h'. p_resolve n (fan_heap (Some (FThrow ''boom'')) None) 1 (VNum 1) = Some (h', Inr VNull) \<and>
      state (promises h' 1) = Rejected \<and> reason (promises h' 1) = VStr ''boom'')"
proof -
  let ?H = "fan_heap (Some (FThrow ''boom'')) None"
  have H: "leaf ?H 3" "leaf ?H 5" "arrays ?H (children (promises ?H 1)) = [3, 5]"
    "onFulfilled (promises ?H 1) = Some (FThrow ''boom'')"
    "onRejected (promises ?H 1) = None" "\<not> rejectWasConsumed (promises ?H 1)"
    by (simp_all add: fan_heap_def empty_heap_def leaf_def run_defs)
  have l: "\<forall>c \<in> set (arrays ?H (children (promises ?H 1))). leaf ?H c"
    using H by simp
  have r: "onRejected (promises ?H 1) = None \<and> \<not> rejectWasConsumed (promises ?H 1) \<or>
           onRejected (promises ?H 1) = Some RRecord"
    using H by simp
  have "\<exists>n h'. p_resolve n ?H 1 (VNum 1) = Some (h', Inr VNull) \<and>
      state (promises h' 1) = Rejected \<and> reason (promises h' 1) = VStr ''boom''"
    using failures_become_rejections [OF l H(4) r, of 0 empty_heap "[]" "VNum 1"] by blast
  then show ?thesis using H by blast
qed

subsection \<open>Settling a node more than once\<close>

text \<open>
  C1 as stated does not hold: a resolver that calls \<^verbatim>\<open>resolve(1)\<close> and then
  \<^verbatim>\<open>reject("late")\<close> leaves the node Rejected with reason \<^verbatim>\<open>"late"\<close>, although the same
  resolver without the second call leaves it Fulfilled; and a resolver that calls
  \<^verbatim>\<open>reject("first")\<close> and then \<^verbatim>\<open>resolve(2)\<close> leaves the node Fulfilled with 2.
\<close>

theorem first_call_wins_counterexample:
  "state_after (promise_new 3 empty_heap (Some [CallResolve (VNum 1)])) 1 = Some Fulfilled \<and>
   state_after (promise_new 3 empty_heap (Some [CallResolve (VNum 1), CallReject (VStr ''late'')])) 1
     = Some Rejected \<and>
   reason_after (promise_new 3 empty_heap (Some [CallResolve (VNum 1), CallReject (VStr ''late'')])) 1
     = Some (JStr ''late'') \<and>
   state_after (promise_new 3 empty_heap (Some [CallReject (VStr ''first'')])) 1 = Some Rejected \<and>
   state_after (promise_new 3 empty_heap (Some [CallReject (VStr ''first''), CallResolve (VNum 2)])) 1
     = Some Fulfilled \<and>
   result_after (promise_new 3 empty_heap (Some [CallReject (VStr ''first''), CallResolve (VNum 2)])) 1
     = Some (JNum 2) \<and>
   result_after (promise_new 3 empty_heap (Some [CallResolve (VNum 1), CallResolve (VNum 2)])) 1
     = Some (JNum 2)"
  by (simp add: eval_nat_numeral promise_new_def empty_heap_def obs_defs exec_Suc run_defs)

lemma resolver_last_call:
  "(\<exists>h' a. promise_new (Suc (Suc (Suc n))) h0 (Some [CallResolve v, CallReject r])
              = Some (h', Inr (VPromise a)) \<and>
      state (promises h' a) = Rejected \<and> reason (promises h' a) = r) \<and>
   (\<exists>h' a. promise_new (Suc (Suc (Suc n))) h0 (Some [CallReject r, CallResolve v])
              = Some (h', Inr (VPromise a)) \<and>
      state (promises h' a) = Fulfilled \<and> result (promises h' a) = v) \<and>
   (\<exists>h' a. promise_new (Suc (Suc (Suc n))) h0 (Some [CallResolve w, CallResolve v])
              = Some (h', Inr (VPromise a)) \<and>
      state (promises h' a) = Fulfilled \<and> result (promises h' a) = v) \<and>
   (\<exists>h' a. promise_new (Suc (Suc (Suc n))) h0 (Some [CallReject s, CallReject r])
              = Some (h', Inr (VPromise a)) \<and>
      state (promises h' a) = Rejected \<and> reason (promises h' a) = r)"
  by (simp add: promise_new_def exec_Suc run_defs)

text \<open>
  C1, amended. Neither \<^verbatim>\<open>_resolve\<close> nor \<^verbatim>\<open>_reject\<close> looks at the state of the node.
  On a node without handlers whose children are plain nodes, in whatever state it is,
  \<^verbatim>\<open>_resolve(v)\<close> returns and leaves it Fulfilled with result \<open>v\<close>, and \<^verbatim>\<open>_reject(r)\<close>
  returns and leaves it Rejected with reason \<open>r\<close>; a resolve followed by a reject leaves
  it Rejected, a reject followed by a resolve leaves it Fulfilled. The same holds for
  the two closures the constructor hands to its resolver: the last call wins.
\<close>

theorem settlement_last_call_wins:
  assumes "\<forall>c \<in> set (arrays h (children (promises h this))). leaf h c"
    and "onFulfilled (promises h this) = None" and "onRejected (promises h this) = None"
    and "\<not> rejectWasConsumed (promises h this)"
  shows
   "(\<exists>h1 h2.
       p_resolve (Suc (Suc (Suc (length (arrays h (children (promises h this))) + n)))) h this v
         = Some (h1, Inr VNull) \<and>
       state (promises h1 this) = Fulfilled \<and> result (promises h1 this) = v \<and>
       p_reject (Suc (Suc (Suc (length (arrays h (children (promises h this))) + n)))) h1 this r
         = Some (h2, Inr VUndefined) \<and>
       state (promises h2 this) = Rejected \<and> reason (promises h2 this) = r) \<and>
    (\<exists>h1 h2.
       p_reject (Suc (Suc (Suc (length (arrays h (children (promises h this))) + n)))) h this r
         = Some (h1, Inr VUndefined) \<and>
       state (promises h1 this) = Rejected \<and> reason (promises h1 this) = r \<and>
       p_resolve (Suc (Suc (Suc (length (arrays h (children (promises h this))) + n)))) h1 this v
         = Some (h2, Inr VNull) \<and>
       state (promises h2 this) = Fulfilled \<and> result (promises h2 this) = v) \<and>
    (\<exists>h' a. promise_new (Suc (Suc (Suc n))) h0 (Some [CallResolve v, CallReject r])
              = Some (h', Inr (VPromise a)) \<and>
       state (promises h' a) = Rejected \<and> reason (promises h' a) = r) \<and>
    (\<exists>h' a. promise_new (Suc (Suc (Suc n))) h0 (Some [CallReject r, CallResolve v])
              = Some (h', Inr (VPromise a)) \<and>
       state (promises h' a) = Fulfilled \<and> result (promises h' a) = v)"
proof (intro conjI)
  let ?cs = "arrays h (children (promises h this))"
  let ?m = "Suc (Suc (Suc (length ?cs + n)))"
  let ?h1 = "settle_nodes (set ?cs) (fulfil v) (upd_promise this (fulfil v) h)"
  let ?k1 = "settle_nodes (set ?cs) (refuse r) (upd_promise this (refuse r) h)"
  have h1: "arrays ?h1 (children (promises ?h1 this)) = ?cs"
    "\<forall>c \<in> set (arrays ?h1 (children (promises ?h1 this))). leaf ?h1 c"
    "onRejected (promises ?h1 this) = None" "\<not> rejectWasConsumed (promises ?h1 this)"
    using assms by (simp_all add: leaf_def fulfil_def upd_promise_def)
  have k1: "arrays ?k1 (children (promises ?k1 this)) = ?cs"
    "\<forall>c \<in> set (arrays ?k1 (children (promises ?k1 this))). leaf ?k1 c"
    "onFulfilled (promises ?k1 this) = None"
    using assms by (simp_all add: leaf_def refuse_def upd_promise_def)
  have a: "p_resolve ?m h this v = Some (?h1, Inr VNull)"
    by (rule resolve_over_leaves [OF assms(1,2)])
  have b: "p_reject ?m ?h1 this r =
             Some (settle_nodes (set ?cs) (refuse r) (upd_promise this (refuse r) ?h1), Inr VUndefined)"
    using reject_unhandled_over_leaves [OF h1(2,3,4), of n r] by (simp only: h1(1))
  show "\<exists>h1 h2. p_resolve ?m h this v = Some (h1, Inr VNull) \<and>
       state (promises h1 this) = Fulfilled \<and> result (promises h1 this) = v \<and>
       p_reject ?m h1 this r = Some (h2, Inr VUndefined) \<and>
       state (promises h2 this) = Rejected \<and> reason (promises h2 this) = r"
  proof -
    have "state (promises ?h1 this) = Fulfilled \<and> result (promises ?h1 this) = v"
      by (simp add: fulfil_def upd_promise_def)
    moreover have "state (promises (settle_nodes (set ?cs) (refuse r)
                     (upd_promise this (refuse r) ?h1)) this) = Rejected \<and>
                   reason (promises (settle_nodes (set ?cs) (refuse r)
                     (upd_promise this (refuse r) ?h1)) this) = r"
      by (simp add: refuse_def upd_promise_def)
    ultimately show ?thesis using a b by blast
  qed
  have c: "p_reject ?m h this r = Some (?k1, Inr VUndefined)"
    by (rule reject_unhandled_over_leaves [OF assms(1,3,4)])
  have d: "p_resolve ?m ?k1 this v =
             Some (settle_nodes (set ?cs) (fulfil v) (upd_promise this (fulfil v) ?k1), Inr VNull)"
    using resolve_over_leaves [OF k1(2,3), of n v] by (simp only: k1(1))
  show "\<exists>h1 h2. p_reject ?m h this r = Some (h1, Inr VUndefined) \<and>
       state (promises h1 this) = Rejected \<and> reason (promises h1 this) = r \<and>
       p_resolve ?m h1 this v = Some (h2, Inr VNull) \<and>
       state (promises h2 this) = Fulfilled \<and> result (promises h2 this) = v"
  proof -
    have "state (promises ?k1 this) = Rejected \<and> reason (promises ?k1 this) = r"
      by (simp add: refuse_def upd_promise_def)
    moreover have "state (promises (settle_nodes (set ?cs) (fulfil v)
                     (upd_promise this (fulfil v) ?k1)) this) = Fulfilled \<and>
                   result (promises (settle_nodes (set ?cs) (fulfil v)
                     (upd_promise this (fulfil v) ?k1)) this) = v"
      by (simp add: fulfil_def upd_promise_def)
    ultimately show ?thesis using c d by blast
  qed
  show "\<exists>h' a. promise_new (Suc (Suc (Suc n))) h0 (Some [CallResolve v, CallReject r])
              = Some (h', Inr (VPromise a)) \<and>
       state (promises h' a) = Rejected \<and> reason (promises h' a) = r"
    using resolver_last_call [of n h0 v r] by blast
  show "\<exists>h' a. promise_new (Suc (Suc (Suc n))) h0 (Some [CallReject r, CallResolve v])
              = Some (h', Inr (VPromise a)) \<and>
       state (promises h' a) = Fulfilled \<and> result (promises h' a) = v"
    using resolver_last_call [of n h0 v r] by blast
qed

theorem settlement_last_call_wins_witness:
  "leaf (fan_heap None None) 3 \<and> leaf (fan_heap None None) 5 \<and>
   arrays (fan_heap None None) (children (promises (fan_heap None None) 1)) = [3, 5] \<and>
   onFulfilled (promises (fan_heap None None) 1) = None \<and>
   onRejected (promises (fan_heap None None) 1) = None \<and>
   \<not> rejectWasConsumed (promises (fan_heap None None) 1) \<and>
   (\<exists>n h1 h2. p_resolve n (fan_heap None None) 1 (VNum 1) = Some (h1, Inr VNull) \<and>
      state (promises h1 1) = Fulfilled \<and>
      p_reject n h1 1 (VStr ''late'') = Some (h2, Inr VUndefined) \<and>
      state (promises h2 1) = Rejected \<and> reason (promises h2 1) = VStr ''late'')"
proof -
  let ?K = "fan_heap None None"
  have K: "leaf ?K 3" "leaf ?K 5" "arrays ?K (children (promises ?K 1)) = [3, 5]"
    "onFulfilled (promises ?K 1) = None"
    "onRejected (promises ?K 1) = None" "\<not> rejectWasConsumed (promises ?K 1)"
    by (simp_all add: fan_heap_def empty_heap_def leaf_def run_defs)
  have l: "\<forall>c \<in> set (arrays ?K (children (promises ?K 1))). leaf ?K c"
    using K by simp
  have "\<exists>n h1 h2. p_resolve n ?K 1 (VNum 1) = Some (h1, Inr VNull) \<and>
      state (promises h1 1) = Fulfilled \<and>
      p_reject n h1 1 (VStr ''late'') = Some (h2, Inr VUndefined) \<and>
      state (promises h2 1) = Rejected \<and> reason (promises h2 1) = VStr ''late''"
    using settlement_last_call_wins [OF l K(4,5,6), of 0 "VNum 1" "VStr ''late''" empty_heap]
    by blast
  then show ?thesis using K by blast
qed

subsection \<open>What the children of a resolved node receive\<close>

text \<open>
  C5 as stated does not hold. \<open>P\<close> is pending, \<open>Q = P.then(x => resolve(42))\<close> and
  \<open>C = Q.then()\<close>; the nodes are 1, 3 and 5. When \<open>P\<close> is resolved with 1, \<open>Q\<close> is
  resolved with 1, but its child \<open>C\<close> ends Fulfilled with 42, the value of the promise
  the continuation returned, not with 1.
\<close>

theorem fan_out_counterexample:
  "map_option snd (chained_return 7 empty_heap (always (VNum 42)) (VNum 1)) = Some (1, 3, 5) \<and>
   result_after (chained_return 7 empty_heap (always (VNum 42)) (VNum 1)) 3 = Some (JNum 1) \<and>
   state_after (chained_return 7 empty_heap (always (VNum 42)) (VNum 1)) 5 = Some Fulfilled \<and>
   result_after (chained_return 7 empty_heap (always (VNum 42)) (VNum 1)) 5 = Some (JNum 42)"
  by (simp add: eval_nat_numeral chained_return_def always_def api_defs empty_heap_def obs_defs
        exec_Suc run_defs)

text \<open>
  C5, amended. A node whose children are plain nodes is resolved with \<open>v\<close>, and its
  continuation, if it has one, returns. If there is no continuation, or it returns
  something that is not a promise, every child is resolved with \<open>v\<close>. If it returns a
  promise, the children are moved to that promise before the loop over the node's
  children runs, and the node keeps \<open>v\<close>:
  \<^item> a new promise \<open>r\<close> resolved with \<open>f v\<close>: the node's own array of children is left empty
    and every former child is resolved with \<open>f v\<close>, the result of \<open>r\<close>;
  \<^item> another existing promise \<open>a\<close> (not one of the children, unless it is Pending): the
    node's own array is left empty, the array of \<open>a\<close> holds the former children, \<open>a\<close>
    itself is not settled, and the former children are left as they were when \<open>a\<close> is
    Pending, resolved with the result of \<open>a\<close> when it is Fulfilled, and rejected with the
    reason of \<open>a\<close> when it is Rejected;
  \<^item> the node itself: the children come back in a new array of the node and are
    resolved with \<open>v\<close>.
\<close>

theorem fan_out_value:
  assumes "\<forall>c \<in> set (arrays h (children (promises h this))). leaf h c \<and> allocated h c"
    and "allocated h this"
  shows
   "(onFulfilled (promises h this) = None \<longrightarrow>
       (\<exists>h'. p_resolve (Suc (Suc (Suc (length (arrays h (children (promises h this))) + n)))) h this v
                = Some (h', Inr VNull) \<and>
          (\<forall>c \<in> set (arrays h (children (promises h this))).
             state (promises h' c) = Fulfilled \<and> result (promises h' c) = v))) \<and>
    (onFulfilled (promises h this) = Some (FReturn f) \<and> (\<forall>a. f v \<noteq> VPromise a) \<longrightarrow>
       (\<exists>h'. p_resolve (Suc (Suc (Suc (length (arrays h (children (promises h this))) + n)))) h this v
                = Some (h', Inr (f v)) \<and>
          (\<forall>c \<in> set (arrays h (children (promises h this))).
             state (promises h' c) = Fulfilled \<and> result (promises h' c) = v))) \<and>
    (onFulfilled (promises h this) = Some (FResolve f) \<longrightarrow>
       (\<exists>h' r. p_resolve (Suc (Suc (Suc (Suc (Suc (length (arrays h (children (promises h this))) + n))))))
                  h this v = Some (h', Inr (VPromise r)) \<and>
          state (promises h' this) = Fulfilled \<and> result (promises h' this) = v \<and>
          arrays h' (children (promises h' this)) = [] \<and>
          state (promises h' r) = Fulfilled \<and> result (promises h' r) = f v \<and>
          arrays h' (children (promises h' r)) = arrays h (children (promises h this)) \<and>
          (\<forall>c \<in> set (arrays h (children (promises h this))).
             state (promises h' c) = Fulfilled \<and> result (promises h' c) = f v))) \<and>
    (onFulfilled (promises h this) = Some (FReturn f) \<and> f v = VPromise a \<and> a \<noteq> this \<and>
     (state (promises h a) = Pending \<or> a \<notin> set (arrays h (children (promises h this)))) \<longrightarrow>
       (\<exists>h'. p_resolve (Suc (Suc (Suc (Suc (Suc (length (arrays h (children (promises h this))) + n))))))
                h this v = Some (h', Inr (VPromise a)) \<and>
          state (promises h' this) = Fulfilled \<and> result (promises h' this) = v \<and>
          arrays h' (children (promises h' this)) = [] \<and>
          state (promises h' a) = state (promises h a) \<and>
          result (promises h' a) = result (promises h a) \<and>
          reason (promises h' a) = reason (promises h a) \<and>
          arrays h' (children (promises h' a)) = arrays h (children (promises h this)) \<and>
          (state (promises h a) = Pending \<longrightarrow>
             (\<forall>c \<in> set (arrays h (children (promises h this))).
                state (promises h' c) = state (promises h c) \<and>
                result (promises h' c) = result (promises h c) \<and>
                reason (promises h' c) = reason (promises h c))) \<and>
          (state (promises h a) = Fulfilled \<longrightarrow>
             (\<forall>c \<in> set (arrays h (children (promises h this))).
                state (promises h' c) = Fulfilled \<and>
                result (promises h' c) = result (promises h a))) \<and>
          (state (promises h a) = Rejected \<longrightarrow>
             (\<forall>c \<in> set (arrays h (children (promises h this))).
                state (promises h' c) = Rejected \<and>
                reason (promises h' c) = reason (promises h a))))) \<and>
    (onFulfilled (promises h this) = Some (FReturn f) \<and> f v = VPromise this \<longrightarrow>
       (\<exists>h'. p_resolve (Suc (Suc (Suc (Suc (Suc (length (arrays h (children (promises h this))) + n))))))
                h this v = Some (h', Inr (VPromise this)) \<and>
          state (promises h' this) = Fulfilled \<and> result (promises h' this) = v \<and>
          arrays h' (children (promises h' this)) = arrays h (children (promises h this)) \<and>
          (\<forall>c \<in> set (arrays h (children (promises h this))).
             state (promises h' c) = Fulfilled \<and> result (promises h' c) = v)))"
proof (intro conjI impI)
  from assms(1) have leaves: "\<forall>c \<in> set (arrays h (children (promises h this))). leaf h c"
    by simp
  {
    assume cb: "onFulfilled (promises h this) = None"
    show "\<exists>h'. p_resolve (Suc (Suc (Suc (length (arrays h (children (promises h this))) + n)))) h this v
                = Some (h', Inr VNull) \<and>
          (\<forall>c \<in> set (arrays h (children (promises h this))).
             state (promises h' c) = Fulfilled \<and> result (promises h' c) = v)"
      by (simp add: resolve_over_leaves [OF leaves cb] fulfil_def)
  }
  {
    assume "onFulfilled (promises h this) = Some (FReturn f) \<and> (\<forall>a. f v \<noteq> VPromise a)"
    then have cb: "onFulfilled (promises h this) = Some (FReturn f)" and np: "\<forall>a. f v \<noteq> VPromise a"
      by simp_all
    show "\<exists>h'. p_resolve (Suc (Suc (Suc (length (arrays h (children (promises h this))) + n)))) h this v
                = Some (h', Inr (f v)) \<and>
          (\<forall>c \<in> set (arrays h (children (promises h this))).
             state (promises h' c) = Fulfilled \<and> result (promises h' c) = v)"
      by (simp add: resolve_returning_over_leaves [OF leaves cb np] fulfil_def)
  }
  {
    assume cb: "onFulfilled (promises h this) = Some (FResolve f)"
    show "\<exists>h' r. p_resolve (Suc (Suc (Suc (Suc (Suc (length (arrays h (children (promises h this))) + n))))))
                  h this v = Some (h', Inr (VPromise r)) \<and>
          state (promises h' this) = Fulfilled \<and> result (promises h' this) = v \<and>
          arrays h' (children (promises h' this)) = [] \<and>
          state (promises h' r) = Fulfilled \<and> result (promises h' r) = f v \<and>
          arrays h' (children (promises h' r)) = arrays h (children (promises h this)) \<and>
          (\<forall>c \<in> set (arrays h (children (promises h this))).
             state (promises h' c) = Fulfilled \<and> result (promises h' c) = f v)"
      using resolve_chaining_over_leaves [OF assms(1) cb assms(2), of n v] by blast
  }
  {
    assume "onFulfilled (promises h this) = Some (FReturn f) \<and> f v = VPromise a \<and> a \<noteq> this \<and>
      (state (promises h a) = Pending \<or> a \<notin> set (arrays h (children (promises h this))))"
    then have cb: "onFulfilled (promises h this) = Some (FReturn f)"
      and ret: "f v = VPromise a" and other: "a \<noteq> this"
      and nochild: "state (promises h a) = Pending \<or>
                    a \<notin> set (arrays h (children (promises h this)))"
      by simp_all
    show "\<exists>h'. p_resolve (Suc (Suc (Suc (Suc (Suc (length (arrays h (children (promises h this))) + n))))))
                h this v = Some (h', Inr (VPromise a)) \<and>
          state (promises h' this) = Fulfilled \<and> result (promises h' this) = v \<and>
          arrays h' (children (promises h' this)) = [] \<and>
          state (promises h' a) = state (promises h a) \<and>
          result (promises h' a) = result (promises h a) \<and>
          reason (promises h' a) = reason (promises h a) \<and>
          arrays h' (children (promises h' a)) = arrays h (children (promises h this)) \<and>
          (state (promises h a) = Pending \<longrightarrow>
             (\<forall>c \<in> set (arrays h (children (promises h this))).
                state (promises h' c) = state (promises h c) \<and>
                result (promises h' c) = result (promises h c) \<and>
                reason (promises h' c) = reason (promises h c))) \<and>
          (state (promises h a) = Fulfilled \<longrightarrow>
             (\<forall>c \<in> set (arrays h (children (promises h this))).
                state (promises h' c) = Fulfilled \<and>
                result (promises h' c) = result (promises h a))) \<and>
          (state (promises h a) = Rejected \<longrightarrow>
             (\<forall>c \<in> set (arrays h (children (promises h this))).
                state (promises h' c) = Rejected \<and>
                reason (promises h' c) = reason (promises h a)))"
      by (rule resolve_handing_over_leaves [OF assms(1) cb assms(2) ret other nochild])
  }
  {
    assume "onFulfilled (promises h this) = Some (FReturn f) \<and> f v = VPromise this"
    then have cb: "onFulfilled (promises h this) = Some (FReturn f)"
      and ret: "f v = VPromise this"
      by simp_all
    show "\<exists>h'. p_resolve (Suc (Suc (Suc (Suc (Suc (length (arrays h (children (promises h this))) + n))))))
                h this v = Some (h', Inr (VPromise this)) \<and>
          state (promises h' this) = Fulfilled \<and> result (promises h' this) = v \<and>
          arrays h' (children (promises h' this)) = arrays h (children (promises h this)) \<and>
          (\<forall>c \<in> set (arrays h (children (promises h this))).
             state (promises h' c) = Fulfilled \<and> result (promises h' c) = v)"
      using resolve_returning_itself_over_leaves [OF assms(1) cb assms(2) ret, of n] by blast
  }
qed

theorem fan_out_value_witness:
  "leaf (fan_heap (Some (FResolve (always (VNum 42)))) None) 3 \<and>
   leaf (fan_heap (Some (FResolve (always (VNum 42)))) None) 5 \<and>
   allocated (fan_heap (Some (FResolve (always (VNum 42)))) None) 1 \<and>
   allocated (fan_heap (Some (FResolve (always (VNum 42)))) None) 3 \<and>
   allocated (fan_heap (Some (FResolve (always (VNum 42)))) None) 5 \<and>
   arrays (fan_heap (Some (FResolve (always (VNum 42)))) None)
     (children (promises (fan_heap (Some (FResolve (always (VNum 42)))) None) 1)) = [3, 5] \<and>
   (\<exists>n h' r. p_resolve n (fan_heap (Some (FResolve (always (VNum 42)))) None) 1 (VNum 1)
                = Some (h', Inr (VPromise r)) \<and>
      result (promises h' 1) = VNum 1 \<and> arrays h' (children (promises h' 1)) = [] \<and>
      arrays h' (children (promises h' r)) = [3, 5] \<and>
      result (promises h' 3) = VNum 42 \<and> result (promises h' 5) = VNum 42) \<and>
   leaf (fan_heap None None) 3 \<and> leaf (fan_heap None None) 5 \<and>
   allocated (fan_heap None None) 1 \<and> allocated (fan_heap None None) 3 \<and>
   allocated (fan_heap None None) 5 \<and>
   arrays (fan_heap None None) (children (promises (fan_heap None None) 1)) = [3, 5] \<and>
   (\<exists>n h'. p_resolve n (fan_heap None None) 1 (VNum 1) = Some (h', Inr VNull) \<and>
      result (promises h' 3) = VNum 1 \<and> result (promises h' 5) = VNum 1) \<and>
   leaf (fan_heap_beside Rejected) 3 \<and> leaf (fan_heap_beside Rejected) 5 \<and>
   allocated (fan_heap_beside Rejected) 1 \<and> allocated (fan_heap_beside Rejected) 3 \<and>
   allocated (fan_heap_beside Rejected) 5 \<and>
   arrays (fan_heap_beside Rejected) (children (promises (fan_heap_beside Rejected) 1)) = [3, 5] \<and>
   state (promises (fan_heap_beside Rejected) 7) = Rejected \<and>
   (\<exists>n h'. p_resolve n (fan_heap_beside Rejected) 1 (VNum 1) = Some (h', Inr (VPromise 7)) \<and>
      state (promises h' 1) = Fulfilled \<and> result (promises h' 1) = VNum 1 \<and>
      arrays h' (children (promises h' 1)) = [] \<and>
      arrays h' (children (promises h' 7)) = [3, 5] \<and>
      state (promises h' 3) = Rejected \<and> reason (promises h' 3) = VStr ''no'' \<and>
      state (promises h' 5) = Rejected \<and> reason (promises h' 5) = VStr ''no'')"
proof -
  let ?H = "fan_heap (Some (FResolve (always (VNum 42)))) None"
  let ?K = "fan_heap None None"
  let ?B = "fan_heap_beside Rejected"
  have H: "leaf ?H 3" "leaf ?H 5" "allocated ?H 1" "allocated ?H 3" "allocated ?H 5"
    "arrays ?H (children (promises ?H 1)) = [3, 5]"
    and cbH: "onFulfilled (promises ?H 1) = Some (FResolve (always (VNum 42)))"
    and K: "leaf ?K 3" "leaf ?K 5" "allocated ?K 1" "allocated ?K 3" "allocated ?K 5"
    "arrays ?K (children (promises ?K 1)) = [3, 5]"
    and cbK: "onFulfilled (promises ?K 1) = None"
    by (simp_all add: fan_heap_def empty_heap_def leaf_def allocated_def run_defs)
  have B: "leaf ?B 3" "leaf ?B 5" "allocated ?B 1" "allocated ?B 3" "allocated ?B 5"
    "arrays ?B (children (promises ?B 1)) = [3, 5]"
    "state (promises ?B 7) = Rejected"
    and cbB: "onFulfilled (promises ?B 1) = Some (FReturn (always (VPromise 7)))"
    and rB: "reason (promises ?B 7) = VStr ''no''"
    by (simp_all add: fan_heap_beside_def fan_heap_def empty_heap_def leaf_def allocated_def
          run_defs)
  have l1: "\<forall>c \<in> set (arrays ?H (children (promises ?H 1))). leaf ?H c \<and> allocated ?H c"
    and l2: "\<forall>c \<in> set (arrays ?K (children (promises ?K 1))). leaf ?K c \<and> allocated ?K c"
    and l3: "\<forall>c \<in> set (arrays ?B (children (promises ?B 1))). leaf ?B c \<and> allocated ?B c"
    using H K B by simp_all
  have "\<exists>n h' r. p_resolve n ?H 1 (VNum 1) = Some (h', Inr (VPromise r)) \<and>
      result (promises h' 1) = VNum 1 \<and> arrays h' (children (promises h' 1)) = [] \<and>
      arrays h' (children (promises h' r)) = [3, 5] \<and>
      result (promises h' 3) = VNum 42 \<and> result (promises h' 5) = VNum 42"
    using fan_out_value [OF l1 H(3), of 0 "VNum 1" "always (VNum 42)" 0,
        THEN conjunct2, THEN conjunct2, THEN conjunct1, rule_format, OF cbH]
    unfolding H(6) by (fastforce simp: always_def)
  moreover have "\<exists>n h'. p_resolve n ?K 1 (VNum 1) = Some (h', Inr VNull) \<and>
      result (promises h' 3) = VNum 1 \<and> result (promises h' 5) = VNum 1"
    using fan_out_value [OF l2 K(3), of 0 "VNum 1" "always (VNum 42)" 0,
        THEN conjunct1, rule_format, OF cbK]
    unfolding K(6) by fastforce
  moreover have "\<exists>n h'. p_resolve n ?B 1 (VNum 1) = Some (h', Inr (VPromise 7)) \<and>
      state (promises h' 1) = Fulfilled \<and> result (promises h' 1) = VNum 1 \<and>
      arrays h' (children (promises h' 1)) = [] \<and>
      arrays h' (children (promises h' 7)) = [3, 5] \<and>
      state (promises h' 3) = Rejected \<and> reason (promises h' 3) = VStr ''no'' \<and>
      state (promises h' 5) = Rejected \<and> reason (promises h' 5) = VStr ''no''"
  proof -
    have pre: "onFulfilled (promises ?B 1) = Some (FReturn (always (VPromise 7))) \<and>
        always (VPromise 7) (VNum 1) = VPromise 7 \<and> (7::nat) \<noteq> 1 \<and>
        (state (promises ?B 7) = Pending \<or> 7 \<notin> set (arrays ?B (children (promises ?B 1))))"
      using cbB unfolding B(6) by (simp add: always_def)
    from fan_out_value [OF l3 B(3), of 0 "VNum 1" "always (VPromise 7)" 7,
        THEN conjunct2, THEN conjunct2, THEN conjunct2, THEN conjunct1, rule_format, OF pre]
    show ?thesis unfolding B(6,7) rB by fastforce
  qed
  ultimately show ?thesis using H K B by blast
qed

subsection \<open>A continuation that returns a promise\<close>

text \<open>
  C6. On every heap: \<open>P\<close> is pending, \<open>Q = P.then(x => InternalPromise.resolve(f(x)))\<close>,
  \<open>C = Q.then()\<close>, and \<open>P\<close> is then resolved with \<open>v\<close>. The node \<open>Q\<close> that \<^verbatim>\<open>then\<close>
  returned ends Fulfilled with \<open>v\<close>, the value of its parent, and not with \<open>f v\<close>; only
  its child \<open>C\<close> receives \<open>f v\<close>. When \<open>P\<close> is already Fulfilled, \<^verbatim>\<open>then\<close> returns the
  promise \<open>R\<close> that the continuation made, which is Fulfilled with \<open>f v\<close>, and not the
  child it created.
\<close>

theorem chained_return_keeps_parent_value:
  "(\<exists>h P Q C. chained_return (Suc (Suc (Suc (Suc (Suc (Suc (Suc n))))))) h0 f v = Some (h, P, Q, C) \<and>
      onFulfilled (promises h Q) = Some (FResolve f) \<and>
      state (promises h Q) = Fulfilled \<and> result (promises h Q) = v \<and>
      promise_value (promises h Q) = Inr v \<and>
      state (promises h C) = Fulfilled \<and> result (promises h C) = f v) \<and>
   (\<exists>h P R child. chained_return_settled (Suc (Suc (Suc (Suc (Suc n))))) h0 f v = Some (h, P, R) \<and>
      arrays h (children (promises h P)) = [child] \<and>
      onFulfilled (promises h child) = Some (FResolve f) \<and>
      arrays h (children (promises h child)) = [R] \<and> R \<noteq> child \<and>
      onFulfilled (promises h R) = None \<and>
      state (promises h R) = Fulfilled \<and> result (promises h R) = f v \<and>
      promise_value (promises h R) = Inr (f v))"
  by (simp add: chained_return_def chained_return_settled_def api_defs promise_value_def
        exec_Suc run_defs)

subsection \<open>\<^verbatim>\<open>all\<close>: the first failure\<close>




subsection \<open>\<^verbatim>\<open>all\<close>: the order of the results\<close>




end
